theory Spec2Isabelle
  imports Main "HOL-Library.Word"
begin

unbundle bit_operations_syntax

section \<open>Platform values used by the reader\<close>

text \<open>
  The reader (\<^verbatim>\<open>class ZipReader\<close>) works on an \<^verbatim>\<open>ArrayBuffer\<close> through a
  \<^verbatim>\<open>DataView\<close> that covers the whole buffer (its \<^verbatim>\<open>byteOffset\<close> is 0). The buffer is a
  list of bytes. JavaScript numbers that hold offsets, lengths and field values are integers
  far below \<open>2^53\<close> here (a field is at most \<open>2^32 - 1\<close>, a cursor adds at most
  \<open>65535\<close> strides to it before a read fails), so they are modelled as \<open>int\<close> without
  rounding.
\<close>

type_synonym byte = "8 word"

text \<open>
  Every \<^verbatim>\<open>throw\<close> of the source is a value. \<open>RangeError\<close> is what \<^verbatim>\<open>DataView\<close> reads
  and the \<^verbatim>\<open>Uint8Array\<close> constructor raise out of bounds; the other constructors are the
  four \<^verbatim>\<open>new Error(...)\<close> of the source, named after their messages:
  \<^item> \<open>EOCDNotFound\<close>: \<^verbatim>\<open>'Not a valid ZIP file: EOCD not found'\<close>
  \<^item> \<open>InvalidCentralDirectorySignature\<close>: \<^verbatim>\<open>'Invalid central directory signature'\<close>
  \<^item> \<open>InvalidLocalFileHeaderSignature\<close>: \<^verbatim>\<open>'Invalid local file header signature'\<close>
  \<^item> \<open>UnsupportedCompressionMethod m\<close>: \<^verbatim>\<open>`Unsupported compression method: ${m}`\<close>
\<close>

datatype error =
    RangeError
  | EOCDNotFound
  | InvalidCentralDirectorySignature
  | InvalidLocalFileHeaderSignature
  | UnsupportedCompressionMethod int

text \<open>
  Sequencing of steps that may throw: the first error ends the computation, as an
  exception that nothing catches does.
\<close>

definition try_bind :: "error + 'a \<Rightarrow> ('a \<Rightarrow> error + 'b) \<Rightarrow> error + 'b" where
  "try_bind m f = (case m of Inl e \<Rightarrow> Inl e | Inr v \<Rightarrow> f v)"

text \<open>The unsigned little-endian value of a run of bytes.\<close>

fun le_value :: "byte list \<Rightarrow> int" where
  "le_value [] = 0"
| "le_value (b # bs) = uint b + 256 * le_value bs"

text \<open>
  \<^verbatim>\<open>dataView.getUint16(byteOffset, true)\<close> and \<^verbatim>\<open>dataView.getUint32(byteOffset, true)\<close>:
  a \<open>RangeError\<close> when the index is negative or the element does not fit in the view.
\<close>

definition getUint16 :: "byte list \<Rightarrow> int \<Rightarrow> error + int" where
  "getUint16 dv byteOffset =
     (if byteOffset < 0 \<or> int (length dv) < byteOffset + 2 then Inl RangeError
      else Inr (le_value (take 2 (drop (nat byteOffset) dv))))"

definition getUint32 :: "byte list \<Rightarrow> int \<Rightarrow> error + int" where
  "getUint32 dv byteOffset =
     (if byteOffset < 0 \<or> int (length dv) < byteOffset + 4 then Inl RangeError
      else Inr (le_value (take 4 (drop (nat byteOffset) dv))))"

text \<open>
  \<^verbatim>\<open>new Uint8Array(buffer, byteOffset, length)\<close>: a view of \<open>len\<close> bytes of the buffer from
  \<open>byteOffset\<close>; a \<open>RangeError\<close> when an argument is negative or the view does not fit.
  The view is modelled by the bytes it shows.
\<close>

definition Uint8Array :: "byte list \<Rightarrow> int \<Rightarrow> int \<Rightarrow> error + byte list" where
  "Uint8Array buffer byteOffset len =
     (if byteOffset < 0 \<or> len < 0 \<or> int (length buffer) < byteOffset + len then Inl RangeError
      else Inr (take (nat len) (drop (nat byteOffset) buffer)))"

text \<open>
  The bitwise operators of JavaScript convert their operands to 32-bit signed integers
  (\<open>ToInt32\<close>); \<^verbatim>\<open>>>\<close> is the arithmetic shift, its count taken modulo 32.
\<close>

definition ToInt32 :: "int \<Rightarrow> int" where
  "ToInt32 x = sint (word_of_int x :: 32 word)"

definition js_and :: "int \<Rightarrow> int \<Rightarrow> int" where
  "js_and a b = ToInt32 a AND ToInt32 b"

definition js_sar :: "int \<Rightarrow> nat \<Rightarrow> int" where
  "js_sar a n = drop_bit (n mod 32) (ToInt32 a)"

subsection \<open>Dates\<close>

text \<open>
  The arithmetic of the platform's \<^verbatim>\<open>Date\<close> objects (ECMA-262, Date objects), which the
  source enters through \<^verbatim>\<open>new Date(year, month, day, hour, minute, second)\<close>. Time values
  are milliseconds since the epoch. \<open>DayFromYear\<close> numbers the first day of a year;
  \<open>YearFromTime\<close> is the largest year whose first day is not after the day of the time
  value, found by counting up from a year that is not after it.
\<close>

definition msPerDay :: int where
  "msPerDay = 86400000"

definition Day :: "int \<Rightarrow> int" where
  "Day t = t div msPerDay"

definition DaysInYear :: "int \<Rightarrow> int" where
  "DaysInYear y =
     (if y mod 4 \<noteq> 0 then 365 else if y mod 100 \<noteq> 0 then 366
      else if y mod 400 \<noteq> 0 then 365 else 366)"

definition DayFromYear :: "int \<Rightarrow> int" where
  "DayFromYear y =
     365 * (y - 1970) + (y - 1969) div 4 - (y - 1901) div 100 + (y - 1601) div 400"

function year_search :: "int \<Rightarrow> int \<Rightarrow> int" where
  "year_search d y = (if DayFromYear (y + 1) \<le> d then year_search d (y + 1) else y)"
  by pat_completeness auto
termination
  apply (relation "measure (\<lambda>(d, y). nat (d - DayFromYear (y + 1) + 1))")
   apply simp
  apply (simp add: DayFromYear_def)
  done

definition YearFromTime :: "int \<Rightarrow> int" where
  "YearFromTime t =
     (let d = Day t in year_search d (1970 + (if 0 \<le> d then d div 366 else d div 365)))"

definition leap_day :: "int \<Rightarrow> int" where
  "leap_day y = (if DaysInYear y = 366 then 1 else 0)"

definition InLeapYear :: "int \<Rightarrow> int" where
  "InLeapYear t = leap_day (YearFromTime t)"

definition DayWithinYear :: "int \<Rightarrow> int" where
  "DayWithinYear t = Day t - DayFromYear (YearFromTime t)"

definition MonthFromTime :: "int \<Rightarrow> int" where
  "MonthFromTime t =
     (let d = DayWithinYear t; l = InLeapYear t in
      if d < 31 then 0 else if d < 59 + l then 1 else if d < 90 + l then 2
      else if d < 120 + l then 3 else if d < 151 + l then 4 else if d < 181 + l then 5
      else if d < 212 + l then 6 else if d < 243 + l then 7 else if d < 273 + l then 8
      else if d < 304 + l then 9 else if d < 334 + l then 10 else 11)"

definition DateFromTime :: "int \<Rightarrow> int" where
  "DateFromTime t =
     (let d = DayWithinYear t; l = InLeapYear t; m = MonthFromTime t in
      if m = 0 then d + 1 else if m = 1 then d - 30 else if m = 2 then d - 58 - l
      else if m = 3 then d - 89 - l else if m = 4 then d - 119 - l
      else if m = 5 then d - 150 - l else if m = 6 then d - 180 - l
      else if m = 7 then d - 211 - l else if m = 8 then d - 242 - l
      else if m = 9 then d - 272 - l else if m = 10 then d - 303 - l else d - 333 - l)"

definition HourFromTime :: "int \<Rightarrow> int" where
  "HourFromTime t = (t div 3600000) mod 24"

definition MinFromTime :: "int \<Rightarrow> int" where
  "MinFromTime t = (t div 60000) mod 60"

definition SecFromTime :: "int \<Rightarrow> int" where
  "SecFromTime t = (t div 1000) mod 60"

definition MakeTime :: "int \<Rightarrow> int \<Rightarrow> int \<Rightarrow> int \<Rightarrow> int" where
  "MakeTime hour minute sec ms = hour * 3600000 + minute * 60000 + sec * 1000 + ms"

text \<open>
  \<open>MakeDay\<close> carries whole years of the month argument into the year and adds the date
  argument to the day number of the first of the month, so that a month or a date out of
  range moves the result into a neighbouring month or year. \<open>month_start\<close> is the day
  within the year on which a month begins, by the table of \<open>MonthFromTime\<close>.
\<close>

definition month_start :: "int \<Rightarrow> int \<Rightarrow> int" where
  "month_start ym mn =
     (let l = leap_day ym in
      if mn = 0 then 0 else if mn = 1 then 31 else if mn = 2 then 59 + l
      else if mn = 3 then 90 + l else if mn = 4 then 120 + l else if mn = 5 then 151 + l
      else if mn = 6 then 181 + l else if mn = 7 then 212 + l else if mn = 8 then 243 + l
      else if mn = 9 then 273 + l else if mn = 10 then 304 + l else 334 + l)"

definition MakeDay :: "int \<Rightarrow> int \<Rightarrow> int \<Rightarrow> int" where
  "MakeDay year month date =
     (let ym = year + month div 12; mn = month mod 12
      in DayFromYear ym + month_start ym mn + date - 1)"

definition MakeDate :: "int \<Rightarrow> int \<Rightarrow> int" where
  "MakeDate day time = day * msPerDay + time"

definition MakeFullYear :: "int \<Rightarrow> int" where
  "MakeFullYear y = (if 0 \<le> y \<and> y \<le> 99 then 1900 + y else y)"

text \<open>
  \<^verbatim>\<open>new Date(year, month, day, hour, minute, second)\<close> computes \<open>finalDate\<close>, a time
  value in local time, and stores \<open>UTC(finalDate)\<close>. The conversion depends on the time
  zone of the host, the function \<open>LocalTZA(t, isUTC)\<close> of the platform, which is a
  parameter \<open>tz\<close> of the functions that read a \<^verbatim>\<open>Date\<close>; the record keeps \<open>finalDate\<close>.
  (The platform also rejects time values beyond \<open>8.64e15\<close>, which lies far outside the
  years a packed date can reach.)
\<close>

type_synonym time_zone = "int \<Rightarrow> bool \<Rightarrow> int"

definition UTC :: "time_zone \<Rightarrow> int \<Rightarrow> int" where
  "UTC tz t = t - tz t False"

definition LocalTime :: "time_zone \<Rightarrow> int \<Rightarrow> int" where
  "LocalTime tz t = t + tz t True"

record Date =
  finalDate :: int

definition new_Date :: "int \<Rightarrow> int \<Rightarrow> int \<Rightarrow> int \<Rightarrow> int \<Rightarrow> int \<Rightarrow> Date" where
  "new_Date year month date hours minutes seconds =
     \<lparr>finalDate =
        MakeDate (MakeDay (MakeFullYear year) month date) (MakeTime hours minutes seconds 0)\<rparr>"

definition timeValue :: "time_zone \<Rightarrow> Date \<Rightarrow> int" where
  "timeValue tz d = UTC tz (finalDate d)"

definition getFullYear :: "time_zone \<Rightarrow> Date \<Rightarrow> int" where
  "getFullYear tz d = YearFromTime (LocalTime tz (timeValue tz d))"

definition getMonth :: "time_zone \<Rightarrow> Date \<Rightarrow> int" where
  "getMonth tz d = MonthFromTime (LocalTime tz (timeValue tz d))"

definition getDate :: "time_zone \<Rightarrow> Date \<Rightarrow> int" where
  "getDate tz d = DateFromTime (LocalTime tz (timeValue tz d))"

definition getHours :: "time_zone \<Rightarrow> Date \<Rightarrow> int" where
  "getHours tz d = HourFromTime (LocalTime tz (timeValue tz d))"

definition getMinutes :: "time_zone \<Rightarrow> Date \<Rightarrow> int" where
  "getMinutes tz d = MinFromTime (LocalTime tz (timeValue tz d))"

definition getSeconds :: "time_zone \<Rightarrow> Date \<Rightarrow> int" where
  "getSeconds tz d = SecFromTime (LocalTime tz (timeValue tz d))"

text \<open>The number of days of month \<open>mn\<close> (counted from 0) of year \<open>y\<close>.\<close>

definition days_in_month :: "int \<Rightarrow> int \<Rightarrow> int" where
  "days_in_month y mn =
     (if mn = 1 then 28 + leap_day y
      else if mn = 3 \<or> mn = 5 \<or> mn = 8 \<or> mn = 10 then 30 else 31)"

subsection \<open>Streams\<close>

text \<open>
  The two streams the source builds: a \<^verbatim>\<open>ReadableStream\<close> whose \<^verbatim>\<open>start\<close> enqueues one
  chunk and closes, and such a stream piped through
  \<^verbatim>\<open>new DecompressionStream('deflate-raw')\<close>.
\<close>

datatype ReadableStream =
    EnqueueClose "byte list"
  | PipeThroughDeflateRaw ReadableStream

section \<open>The reader\<close>

text \<open>
  \<^verbatim>\<open>interface ZipFileInfo\<close>. The type \<open>'s\<close> is the type of JavaScript strings;
  \<^verbatim>\<open>new TextDecoder().decode\<close> is a parameter \<open>decode\<close> of the functions that use it.
\<close>

record 's ZipFileInfo =
  filename :: 's
  encrypted :: bool
  compressedSize :: int
  uncompressedSize :: int
  compressionMethod :: int
  crc32 :: int
  lastModified :: Date
  offset :: int

text \<open>The two private fields of \<^verbatim>\<open>ZipReader\<close>.\<close>

record 's ZipReader =
  dataView :: "byte list"
  files :: "'s ZipFileInfo list"

definition dosDateTimeToDate :: "int \<Rightarrow> int \<Rightarrow> Date" where
  "dosDateTimeToDate dosDate dosTime =
     (let year = js_and (js_sar dosDate 9) 0x7f + 1980;
          month = js_and (js_sar dosDate 5) 0x0f - 1;
          day = js_and dosDate 0x1f;
          hour = js_and (js_sar dosTime 11) 0x1f;
          minute = js_and (js_sar dosTime 5) 0x3f;
          second = js_and dosTime 0x1f * 2
      in new_Date year month day hour minute second)"

definition parseCentralDirectoryEntry ::
  "(byte list \<Rightarrow> 's) \<Rightarrow> byte list \<Rightarrow> int \<Rightarrow> error + 's ZipFileInfo" where
  "parseCentralDirectoryEntry decode dv offs =
     try_bind (getUint16 dv (offs + 6)) (\<lambda>versionNeeded.
     try_bind (getUint16 dv (offs + 8)) (\<lambda>generalPurpose.
     try_bind (getUint16 dv (offs + 10)) (\<lambda>compressionMethod'.
     try_bind (getUint16 dv (offs + 12)) (\<lambda>lastModTime.
     try_bind (getUint16 dv (offs + 14)) (\<lambda>lastModDate.
     try_bind (getUint32 dv (offs + 16)) (\<lambda>crc32'.
     try_bind (getUint32 dv (offs + 20)) (\<lambda>compressedSize'.
     try_bind (getUint32 dv (offs + 24)) (\<lambda>uncompressedSize'.
     try_bind (getUint16 dv (offs + 28)) (\<lambda>filenameLen.
     try_bind (getUint32 dv (offs + 42)) (\<lambda>localHeaderOffset.
     try_bind (Uint8Array dv (0 + offs + 46) filenameLen) (\<lambda>filenameBytes.
       Inr \<lparr>filename = decode filenameBytes,
            encrypted = (js_and generalPurpose 0x0001 \<noteq> 0),
            compressedSize = compressedSize',
            uncompressedSize = uncompressedSize',
            compressionMethod = compressionMethod',
            crc32 = crc32',
            lastModified = dosDateTimeToDate lastModDate lastModTime,
            offset = localHeaderOffset\<rparr>)))))))))))"

text \<open>
  \<^verbatim>\<open>findEOCD\<close>: the loop \<^verbatim>\<open>for (i = byteLength - 22; i >= searchStart; i--)\<close>, then the
  method. The result \<open>-1\<close> is the source's "not found".
\<close>

function findEOCD_loop :: "byte list \<Rightarrow> int \<Rightarrow> int \<Rightarrow> error + int" where
  "findEOCD_loop dv searchStart i =
     (if i \<ge> searchStart then
        try_bind (getUint32 dv i) (\<lambda>v.
          if v = 0x06054b50 then Inr i
          else findEOCD_loop dv searchStart (i - 1))
      else Inr (- 1))"
  by pat_completeness auto
termination
  by (relation "measure (\<lambda>(dv, searchStart, i). nat (i - searchStart + 1))") auto

definition findEOCD :: "byte list \<Rightarrow> error + int" where
  "findEOCD dv =
     (let maxCommentSize = 65535;
          searchStart = max 0 (int (length dv) - maxCommentSize - 22)
      in findEOCD_loop dv searchStart (int (length dv) - 22))"

text \<open>
  \<^verbatim>\<open>parse\<close>: the loop \<^verbatim>\<open>for (let i = 0; i < numEntries; i++)\<close> with its cursor
  \<open>offs\<close> and the list \<^verbatim>\<open>this.files\<close> it pushes to, then the method.
\<close>

function parse_loop ::
  "(byte list \<Rightarrow> 's) \<Rightarrow> byte list \<Rightarrow> int \<Rightarrow> int \<Rightarrow> int \<Rightarrow> 's ZipFileInfo list
     \<Rightarrow> error + 's ZipFileInfo list" where
  "parse_loop decode dv numEntries i offs fs =
     (if i < numEntries then
        try_bind (getUint32 dv offs) (\<lambda>signature.
        if signature \<noteq> 0x02014b50 then Inl InvalidCentralDirectorySignature
        else
          try_bind (parseCentralDirectoryEntry decode dv offs) (\<lambda>fileInfo.
          try_bind (getUint16 dv (offs + 28)) (\<lambda>filenameLen.
          try_bind (getUint16 dv (offs + 30)) (\<lambda>extraLen.
          try_bind (getUint16 dv (offs + 32)) (\<lambda>commentLen.
            parse_loop decode dv numEntries (i + 1)
              (offs + (46 + filenameLen + extraLen + commentLen)) (fs @ [fileInfo]))))))
      else Inr fs)"
  by pat_completeness auto
termination
  by (relation "measure (\<lambda>(decode, dv, numEntries, i, offs, fs). nat (numEntries - i))") auto

definition parse :: "(byte list \<Rightarrow> 's) \<Rightarrow> byte list \<Rightarrow> error + 's ZipFileInfo list" where
  "parse decode dv =
     try_bind (findEOCD dv) (\<lambda>eocdOffset.
     if eocdOffset = - 1 then Inl EOCDNotFound
     else
       try_bind (getUint32 dv (eocdOffset + 12)) (\<lambda>centralDirSize.
       try_bind (getUint32 dv (eocdOffset + 16)) (\<lambda>centralDirOffset.
       try_bind (getUint16 dv (eocdOffset + 10)) (\<lambda>numEntries.
         parse_loop decode dv numEntries 0 centralDirOffset []))))"

text \<open>
  The constructor: a reader whose \<^verbatim>\<open>files\<close> is what \<^verbatim>\<open>parse\<close> has pushed, or the error
  \<^verbatim>\<open>parse\<close> throws, in which case no reader exists.
\<close>

definition new_ZipReader :: "(byte list \<Rightarrow> 's) \<Rightarrow> byte list \<Rightarrow> error + 's ZipReader" where
  "new_ZipReader decode arrayBuffer =
     try_bind (parse decode arrayBuffer) (\<lambda>fs.
       Inr \<lparr>dataView = arrayBuffer, files = fs\<rparr>)"

definition getFiles :: "'s ZipReader \<Rightarrow> 's ZipFileInfo list" where
  "getFiles this = files this"

text \<open>
  \<^verbatim>\<open>extractFile\<close> returns its result (a stream, \<open>None\<close> for \<^verbatim>\<open>null\<close>, or the error
  thrown) together with the reader as the call leaves it.
\<close>

definition extractFile ::
  "'s ZipReader \<Rightarrow> 's \<Rightarrow> (error + ReadableStream option) \<times> 's ZipReader" where
  "extractFile this name =
     (case find (\<lambda>f. filename f = name) (files this) of
        None \<Rightarrow> (Inr None, this)
      | Some fileInfo \<Rightarrow>
         (let localHeaderOffset = offset fileInfo in
          (case getUint32 (dataView this) localHeaderOffset of
             Inl e \<Rightarrow> (Inl e, this)
           | Inr signature \<Rightarrow>
              if signature \<noteq> 0x04034b50 then (Inl InvalidLocalFileHeaderSignature, this)
              else
               (case getUint16 (dataView this) (localHeaderOffset + 26) of
                  Inl e \<Rightarrow> (Inl e, this)
                | Inr filenameLen \<Rightarrow>
                   (case getUint16 (dataView this) (localHeaderOffset + 28) of
                      Inl e \<Rightarrow> (Inl e, this)
                    | Inr extraLen \<Rightarrow>
                       (let dataOffset = localHeaderOffset + 30 + filenameLen + extraLen in
                        (case Uint8Array (dataView this) (0 + dataOffset)
                                (compressedSize fileInfo) of
                           Inl e \<Rightarrow> (Inl e, this)
                         | Inr compressedData \<Rightarrow>
                            if compressionMethod fileInfo = 0 then
                              (Inr (Some (EnqueueClose compressedData)), this)
                            else if compressionMethod fileInfo = 8 then
                              (Inr (Some (PipeThroughDeflateRaw (EnqueueClose compressedData))),
                               this)
                            else
                              (Inl (UnsupportedCompressionMethod (compressionMethod fileInfo)),
                               this))))))))"

text \<open>
  A caller that makes one \<^verbatim>\<open>extractFile\<close> call per name of a list, one after the other on
  the same reader, catches what a call throws and keeps every outcome: the loop of the fetch
  handler (\<^verbatim>\<open>for (const fileInfo of zipReader.getFiles()) { try { ... } catch ... }\<close>),
  for any list of names.
\<close>

fun extract_calls ::
  "'s ZipReader \<Rightarrow> 's list \<Rightarrow> (error + ReadableStream option) list \<times> 's ZipReader" where
  "extract_calls this [] = ([], this)"
| "extract_calls this (name # names) =
     (case extractFile this name of (r, this') \<Rightarrow>
        (case extract_calls this' names of (rs, this'') \<Rightarrow> (r # rs, this'')))"

section \<open>The directory walk as the specification words it\<close>

text \<open>
  The specification's walk of the central directory: the cursor starts at the
  central-directory offset and each record advances it by
  \<open>46 + filenameLength + extraLength + commentLength\<close>, the three lengths being the
  16-bit little-endian fields at +28, +30 and +32 of the record. \<open>spec_cursor dv start k\<close>
  is the cursor after \<open>k\<close> records.
\<close>

definition spec_field16 :: "byte list \<Rightarrow> int \<Rightarrow> int" where
  "spec_field16 dv p = le_value (take 2 (drop (nat p) dv))"

definition spec_stride :: "byte list \<Rightarrow> int \<Rightarrow> int" where
  "spec_stride dv c =
     46 + spec_field16 dv (c + 28) + spec_field16 dv (c + 30) + spec_field16 dv (c + 32)"

fun spec_cursor :: "byte list \<Rightarrow> int \<Rightarrow> nat \<Rightarrow> int" where
  "spec_cursor dv c 0 = c"
| "spec_cursor dv c (Suc k) = spec_cursor dv (c + spec_stride dv c) k"

section \<open>Archives that differ in a CRC field\<close>

text \<open>
  A ZIP archive stores the CRC of a member twice: in its central-directory record, at +16,
  and in its local file header, at +14.
  \<open>differ_only_at dv dv' p\<close>: the buffers have the same length and the same bytes
  everywhere except possibly at the four offsets \<open>p\<close> to \<open>p + 3\<close>.
  \<open>reads_clear dv fileInfo p\<close>: none of these four offsets lies in what extraction of
  the entry reads, which is the signature of its local header (4 bytes at \<open>offset\<close>), the
  two lengths of the local header (4 bytes at \<open>offset + 26\<close>) and the payload range, the
  range that starts after the header, the file name and the extra field (their lengths as
  the local header gives them) and has \<open>compressedSize\<close> bytes.
\<close>

definition differ_only_at :: "byte list \<Rightarrow> byte list \<Rightarrow> int \<Rightarrow> bool" where
  "differ_only_at dv dv' p =
     (length dv' = length dv \<and>
      list_all (\<lambda>i. int i < p \<or> p + 4 \<le> int i \<longrightarrow> dv' ! i = dv ! i) [0..<length dv])"

definition reads_clear :: "byte list \<Rightarrow> 's ZipFileInfo \<Rightarrow> int \<Rightarrow> bool" where
  "reads_clear dv fileInfo p =
     ((offset fileInfo + 4 \<le> p \<or> p + 4 \<le> offset fileInfo) \<and>
      (offset fileInfo + 30 \<le> p \<or> p + 4 \<le> offset fileInfo + 26) \<and>
      (let dataOffset = offset fileInfo + 30 + spec_field16 dv (offset fileInfo + 26) +
             spec_field16 dv (offset fileInfo + 28)
       in dataOffset + compressedSize fileInfo \<le> p \<or> p + 4 \<le> dataOffset))"

section \<open>A small archive\<close>

text \<open>
  \<^verbatim>\<open>TextDecoder\<close> on bytes below \<open>0x80\<close>: every byte is the character of the same code.
  It stands for \<open>decode\<close> in the examples, whose names are ASCII.
\<close>

definition ascii :: "byte list \<Rightarrow> string" where
  "ascii bs = map (\<lambda>b. char_of (unat b)) bs"

text \<open>
  An archive of 264 bytes with three members and the archive comment \<open>zz\<close>:
  \<^item> \<open>a\<close> at offset 0: flag bit 0 set, method 0, sizes 2 (compressed) and 5 (uncompressed),
    CRC field \<open>0x11223344\<close>, one byte of extra field in the local header and none in the
    central directory, payload \<open>hi\<close>;
  \<^item> \<open>a\<close> again at offset 34: method 8, payload \<open>03 00\<close>;
  \<^item> \<open>b\<close> at offset 67: method 12, payload \<open>07\<close>.
  The central directory is at offset 99, the trailer at offset 240. All three members are
  dated 2025-09-30 16:05:48 (date \<open>0x5b3e\<close>, time \<open>0x80b8\<close>).
\<close>

definition example_zip :: "byte list" where
  "example_zip = [
     0x50, 0x4b, 0x03, 0x04, 0x14, 0x00, 0x01, 0x00, 0x00, 0x00, 0xb8, 0x80,
     0x3e, 0x5b, 0x44, 0x33, 0x22, 0x11, 0x02, 0x00, 0x00, 0x00, 0x05, 0x00,
     0x00, 0x00, 0x01, 0x00, 0x01, 0x00, 0x61, 0x00, 0x68, 0x69, 0x50, 0x4b,
     0x03, 0x04, 0x14, 0x00, 0x00, 0x00, 0x08, 0x00, 0xb8, 0x80, 0x3e, 0x5b,
     0x00, 0x00, 0x00, 0x00, 0x02, 0x00, 0x00, 0x00, 0x00, 0x00, 0x00, 0x00,
     0x01, 0x00, 0x00, 0x00, 0x61, 0x03, 0x00, 0x50, 0x4b, 0x03, 0x04, 0x14,
     0x00, 0x00, 0x00, 0x0c, 0x00, 0xb8, 0x80, 0x3e, 0x5b, 0x00, 0x00, 0x00,
     0x00, 0x01, 0x00, 0x00, 0x00, 0x01, 0x00, 0x00, 0x00, 0x01, 0x00, 0x00,
     0x00, 0x62, 0x07, 0x50, 0x4b, 0x01, 0x02, 0x1e, 0x03, 0x14, 0x00, 0x01,
     0x00, 0x00, 0x00, 0xb8, 0x80, 0x3e, 0x5b, 0x44, 0x33, 0x22, 0x11, 0x02,
     0x00, 0x00, 0x00, 0x05, 0x00, 0x00, 0x00, 0x01, 0x00, 0x00, 0x00, 0x00,
     0x00, 0x00, 0x00, 0x00, 0x00, 0x00, 0x00, 0x00, 0x00, 0x00, 0x00, 0x00,
     0x00, 0x61, 0x50, 0x4b, 0x01, 0x02, 0x1e, 0x03, 0x14, 0x00, 0x00, 0x00,
     0x08, 0x00, 0xb8, 0x80, 0x3e, 0x5b, 0x00, 0x00, 0x00, 0x00, 0x02, 0x00,
     0x00, 0x00, 0x00, 0x00, 0x00, 0x00, 0x01, 0x00, 0x00, 0x00, 0x00, 0x00,
     0x00, 0x00, 0x00, 0x00, 0x00, 0x00, 0x00, 0x00, 0x22, 0x00, 0x00, 0x00,
     0x61, 0x50, 0x4b, 0x01, 0x02, 0x1e, 0x03, 0x14, 0x00, 0x00, 0x00, 0x0c,
     0x00, 0xb8, 0x80, 0x3e, 0x5b, 0x00, 0x00, 0x00, 0x00, 0x01, 0x00, 0x00,
     0x00, 0x01, 0x00, 0x00, 0x00, 0x01, 0x00, 0x00, 0x00, 0x00, 0x00, 0x00,
     0x00, 0x00, 0x00, 0x00, 0x00, 0x00, 0x00, 0x43, 0x00, 0x00, 0x00, 0x62,
     0x50, 0x4b, 0x05, 0x06, 0x00, 0x00, 0x00, 0x00, 0x03, 0x00, 0x03, 0x00,
     0x8d, 0x00, 0x00, 0x00, 0x63, 0x00, 0x00, 0x00, 0x02, 0x00, 0x7a, 0x7a]"

definition example_date :: Date where
  "example_date = new_Date 2025 8 30 16 5 48"

definition example_file1 :: "string ZipFileInfo" where
  "example_file1 =
     \<lparr>filename = ''a'', encrypted = True, compressedSize = 2, uncompressedSize = 5,
      compressionMethod = 0, crc32 = 0x11223344, lastModified = example_date, offset = 0\<rparr>"

definition example_file2 :: "string ZipFileInfo" where
  "example_file2 =
     \<lparr>filename = ''a'', encrypted = False, compressedSize = 2, uncompressedSize = 0,
      compressionMethod = 8, crc32 = 0, lastModified = example_date, offset = 34\<rparr>"

definition example_file3 :: "string ZipFileInfo" where
  "example_file3 =
     \<lparr>filename = ''b'', encrypted = False, compressedSize = 1, uncompressedSize = 1,
      compressionMethod = 12, crc32 = 0, lastModified = example_date, offset = 67\<rparr>"

definition example_reader :: "string ZipReader" where
  "example_reader =
     \<lparr>dataView = example_zip, files = [example_file1, example_file2, example_file3]\<rparr>"

text \<open>The time zone of a host that keeps UTC.\<close>

definition utc_zone :: time_zone where
  "utc_zone t isUTC = 0"

text \<open>
  The example archive with the packed time (at 111) and date (at 113) of its first
  central-directory record set to zero, and the reader it constructs.
\<close>

definition zero_date_zip :: "byte list" where
  "zero_date_zip = example_zip[111 := 0, 112 := 0, 113 := 0, 114 := 0]"

definition zero_date_reader :: "string ZipReader" where
  "zero_date_reader =
     \<lparr>dataView = zero_date_zip,
      files = [example_file1\<lparr>lastModified := new_Date 1980 (- 1) 0 0 0 0\<rparr>,
               example_file2, example_file3]\<rparr>"

text \<open>
  An archive of 100 bytes whose single member \<open>a\<close> (method 0) declares 20 bytes of
  payload although its central-directory record follows the local header at once, at offset
  31: the payload range, offsets 31 to 50, covers the CRC field of the record, offsets 47 to
  50. The second reader is the one constructed from the archive with byte 47 changed.
\<close>

definition overlap_zip :: "byte list" where
  "overlap_zip = [
     0x50, 0x4b, 0x03, 0x04, 0x14, 0x00, 0x00, 0x00, 0x00, 0x00, 0xb8, 0x80,
     0x3e, 0x5b, 0x00, 0x00, 0x00, 0x00, 0x14, 0x00, 0x00, 0x00, 0x14, 0x00,
     0x00, 0x00, 0x01, 0x00, 0x00, 0x00, 0x61, 0x50, 0x4b, 0x01, 0x02, 0x1e,
     0x03, 0x14, 0x00, 0x00, 0x00, 0x00, 0x00, 0xb8, 0x80, 0x3e, 0x5b, 0x00,
     0x00, 0x00, 0x00, 0x14, 0x00, 0x00, 0x00, 0x14, 0x00, 0x00, 0x00, 0x01,
     0x00, 0x00, 0x00, 0x00, 0x00, 0x00, 0x00, 0x00, 0x00, 0x00, 0x00, 0x00,
     0x00, 0x00, 0x00, 0x00, 0x00, 0x61, 0x50, 0x4b, 0x05, 0x06, 0x00, 0x00,
     0x00, 0x00, 0x01, 0x00, 0x01, 0x00, 0x2f, 0x00, 0x00, 0x00, 0x1f, 0x00,
     0x00, 0x00, 0x00, 0x00]"

definition overlap_file :: "string ZipFileInfo" where
  "overlap_file =
     \<lparr>filename = ''a'', encrypted = False, compressedSize = 20, uncompressedSize = 20,
      compressionMethod = 0, crc32 = 0, lastModified = example_date, offset = 0\<rparr>"

definition overlap_reader :: "string ZipReader" where
  "overlap_reader = \<lparr>dataView = overlap_zip, files = [overlap_file]\<rparr>"

definition overlap_reader' :: "string ZipReader" where
  "overlap_reader' =
     \<lparr>dataView = overlap_zip[47 := 0xff], files = [overlap_file\<lparr>crc32 := 0xff\<rparr>]\<rparr>"

section \<open>Basic facts\<close>

declare findEOCD_loop.simps [simp del]
declare parse_loop.simps [simp del]

lemma try_bind_Inl [simp]: "try_bind (Inl e) f = Inl e"
  by (simp add: try_bind_def)

lemma try_bind_Inr [simp]: "try_bind (Inr v) f = f v"
  by (simp add: try_bind_def)

lemma try_bind_eq_Inr: "(try_bind m f = Inr y) = (\<exists>v. m = Inr v \<and> f v = Inr y)"
  by (cases m) simp_all

lemma try_bind_eq_Inl: "(try_bind m f = Inl e) = (m = Inl e \<or> (\<exists>v. m = Inr v \<and> f v = Inl e))"
  by (cases m) simp_all

lemma getUint32_in_range:
  "0 \<le> p \<Longrightarrow> p + 4 \<le> int (length dv) \<Longrightarrow>
   getUint32 dv p = Inr (le_value (take 4 (drop (nat p) dv)))"
  by (simp add: getUint32_def)

lemma getUint16_in_range:
  "0 \<le> p \<Longrightarrow> p + 2 \<le> int (length dv) \<Longrightarrow>
   getUint16 dv p = Inr (le_value (take 2 (drop (nat p) dv)))"
  by (simp add: getUint16_def)

lemma getUint32_Inr_iff:
  "(getUint32 dv p = Inr v) =
   (0 \<le> p \<and> p + 4 \<le> int (length dv) \<and> v = le_value (take 4 (drop (nat p) dv)))"
  by (auto simp: getUint32_def)

lemma getUint16_Inr_iff:
  "(getUint16 dv p = Inr v) =
   (0 \<le> p \<and> p + 2 \<le> int (length dv) \<and> v = le_value (take 2 (drop (nat p) dv)))"
  by (auto simp: getUint16_def)

lemma findEOCD_loop_stop: "\<not> s \<le> i \<Longrightarrow> findEOCD_loop dv s i = Inr (- 1)"
  by (simp add: findEOCD_loop.simps [of dv s i])

lemma findEOCD_loop_hit:
  "s \<le> i \<Longrightarrow> getUint32 dv i = Inr 0x06054b50 \<Longrightarrow> findEOCD_loop dv s i = Inr i"
  by (simp add: findEOCD_loop.simps [of dv s i])

lemma findEOCD_loop_miss:
  "s \<le> i \<Longrightarrow> getUint32 dv i = Inr v \<Longrightarrow> v \<noteq> 0x06054b50 \<Longrightarrow>
   findEOCD_loop dv s i = findEOCD_loop dv s (i - 1)"
  by (simp add: findEOCD_loop.simps [of dv s i])

lemma findEOCD_loop_total:
  "0 \<le> s \<Longrightarrow> i + 4 \<le> int (length dv) \<Longrightarrow> \<exists>r. findEOCD_loop dv s i = Inr r"
proof (induction dv s i rule: findEOCD_loop.induct)
  case (1 dv s i)
  show ?case
  proof (cases "s \<le> i")
    case False
    then show ?thesis by (simp add: findEOCD_loop_stop)
  next
    case True
    with "1.prems" have rd: "getUint32 dv i = Inr (le_value (take 4 (drop (nat i) dv)))"
      by (intro getUint32_in_range) auto
    show ?thesis
    proof (cases "le_value (take 4 (drop (nat i) dv)) = 0x06054b50")
      case hit: True
      with True rd show ?thesis by (simp add: findEOCD_loop_hit)
    next
      case miss: False
      have "i - 1 + 4 \<le> int (length dv)"
        using "1.prems"(2) by simp
      from "1.IH" [OF True miss "1.prems"(1) this]
      show ?thesis
        by (simp add: findEOCD_loop_miss [OF True rd miss])
    qed
  qed
qed

lemma findEOCD_loop_found:
  "findEOCD_loop dv s i = Inr r \<Longrightarrow> r \<noteq> - 1 \<Longrightarrow>
   s \<le> r \<and> r \<le> i \<and> getUint32 dv r = Inr 0x06054b50 \<and>
   (\<forall>j. r < j \<and> j \<le> i \<longrightarrow> getUint32 dv j \<noteq> Inr 0x06054b50)"
proof (induction dv s i rule: findEOCD_loop.induct)
  case (1 dv s i)
  show ?case
  proof (cases "s \<le> i")
    case False
    with "1.prems" show ?thesis by (simp add: findEOCD_loop_stop)
  next
    case True
    show ?thesis
    proof (cases "getUint32 dv i")
      case (Inl e)
      with True "1.prems" show ?thesis
        by (simp add: findEOCD_loop.simps [of dv s i])
    next
      case (Inr v)
      show ?thesis
      proof (cases "v = 0x06054b50")
        case hit: True
        then have "r = i"
          using True Inr "1.prems"(1) by (simp add: findEOCD_loop_hit)
        then show ?thesis
          using True Inr hit by auto
      next
        case miss: False
        have "findEOCD_loop dv s (i - 1) = Inr r"
          using "1.prems"(1) findEOCD_loop_miss [OF True Inr miss] by simp
        from "1.IH" [OF True miss this "1.prems"(2)]
        have ih: "s \<le> r" "r \<le> i - 1" "getUint32 dv r = Inr 0x06054b50"
          "\<forall>j. r < j \<and> j \<le> i - 1 \<longrightarrow> getUint32 dv j \<noteq> Inr 0x06054b50"
          by simp_all
        have "getUint32 dv j \<noteq> Inr 0x06054b50" if "r < j \<and> j \<le> i" for j
        proof (cases "j = i")
          case True
          then show ?thesis using Inr miss by simp
        next
          case False
          with that have "r < j \<and> j \<le> i - 1" by simp
          with ih(4) show ?thesis by blast
        qed
        with ih show ?thesis by simp
      qed
    qed
  qed
qed

lemma findEOCD_loop_none:
  "findEOCD_loop dv s i = Inr (- 1) \<Longrightarrow> 0 \<le> s \<Longrightarrow> s \<le> j \<Longrightarrow> j \<le> i \<Longrightarrow>
   getUint32 dv j \<noteq> Inr 0x06054b50"
proof (induction dv s i rule: findEOCD_loop.induct)
  case (1 dv s i)
  from "1.prems" have True: "s \<le> i" by simp
  show ?case
  proof (cases "getUint32 dv i")
    case (Inl e)
    with True "1.prems" show ?thesis
      by (simp add: findEOCD_loop.simps [of dv s i])
  next
    case (Inr v)
    show ?thesis
    proof (cases "v = 0x06054b50")
      case hit: True
      then have "findEOCD_loop dv s i = Inr i"
        using True Inr by (simp add: findEOCD_loop_hit)
      with "1.prems" show ?thesis by simp
    next
      case miss: False
      have next_run: "findEOCD_loop dv s (i - 1) = Inr (- 1)"
        using "1.prems"(1) findEOCD_loop_miss [OF True Inr miss] by simp
      show ?thesis
      proof (cases "j = i")
        case True
        then show ?thesis using Inr miss by simp
      next
        case False
        with "1.prems" have "j \<le> i - 1" by simp
        from "1.IH" [OF True miss next_run "1.prems"(2) "1.prems"(3) this]
        show ?thesis .
      qed
    qed
  qed
qed


subsection \<open>Extraction\<close>

lemma find_first_match:
  "(\<forall>f\<in>set pre. \<not> P f) \<Longrightarrow> P e \<Longrightarrow> find P (pre @ e # post) = Some e"
  by (induction pre) simp_all

lemma Uint8Array_Inr_iff:
  "(Uint8Array buffer p n = Inr bs) =
   (0 \<le> p \<and> 0 \<le> n \<and> p + n \<le> int (length buffer) \<and>
    bs = take (nat n) (drop (nat p) buffer))"
  by (auto simp: Uint8Array_def)

lemma Uint8Array_length:
  "Uint8Array buffer p n = Inr bs \<Longrightarrow> int (length bs) = n"
  by (auto simp: Uint8Array_def split: if_splits)

text \<open>What a call does once the lookup has found an entry.\<close>

lemma extractFile_found:
  "find (\<lambda>f. filename f = name) (files this) = Some fileInfo \<Longrightarrow>
   fst (extractFile this name) =
     try_bind (getUint32 (dataView this) (offset fileInfo)) (\<lambda>signature.
       if signature \<noteq> 0x04034b50 then Inl InvalidLocalFileHeaderSignature
       else
         try_bind (getUint16 (dataView this) (offset fileInfo + 26)) (\<lambda>filenameLen.
         try_bind (getUint16 (dataView this) (offset fileInfo + 28)) (\<lambda>extraLen.
         try_bind (Uint8Array (dataView this) (offset fileInfo + 30 + filenameLen + extraLen)
                     (compressedSize fileInfo)) (\<lambda>compressedData.
           if compressionMethod fileInfo = 0 then Inr (Some (EnqueueClose compressedData))
           else if compressionMethod fileInfo = 8 then
             Inr (Some (PipeThroughDeflateRaw (EnqueueClose compressedData)))
           else Inl (UnsupportedCompressionMethod (compressionMethod fileInfo))))))"
  by (simp add: extractFile_def Let_def try_bind_def split: sum.splits)

lemma extractFile_not_found:
  "find (\<lambda>f. filename f = name) (files this) = None \<Longrightarrow>
   extractFile this name = (Inr None, this)"
  by (simp add: extractFile_def)

lemma extractFile_state: "snd (extractFile this name) = this"
  by (simp add: extractFile_def Let_def split: option.splits sum.splits)

lemma extractFile_found_not_null:
  "find (\<lambda>f. filename f = name) (files this) = Some fileInfo \<Longrightarrow>
   fst (extractFile this name) \<noteq> Inr None"
  by (simp add: extractFile_found try_bind_eq_Inr)

lemma find_agree:
  "list_all2 R xs ys \<Longrightarrow> (\<And>a b. R a b \<Longrightarrow> P a = Q b) \<Longrightarrow>
   rel_option R (find P xs) (find Q ys)"
  by (induction rule: list_all2_induct) auto

lemma list_all2_of_map_eq:
  "map g xs = map g ys \<Longrightarrow> list_all2 (\<lambda>a b. g a = g b) xs ys"
proof -
  assume "map g xs = map g ys"
  then have "list_all2 (=) (map g xs) (map g ys)"
    by (simp add: list.rel_eq)
  then show ?thesis
    by (simp add: list_all2_map1 list_all2_map2)
qed

lemma blank_uncompressedSize_agree:
  "a\<lparr>uncompressedSize := 0\<rparr> = b\<lparr>uncompressedSize := 0\<rparr> \<Longrightarrow>
   filename a = filename b \<and> offset a = offset b \<and>
   compressedSize a = compressedSize b \<and> compressionMethod a = compressionMethod b"
  by (cases a, cases b) simp

lemma blank_crc32_agree:
  "a\<lparr>crc32 := 0\<rparr> = b\<lparr>crc32 := 0\<rparr> \<Longrightarrow>
   filename a = filename b \<and> offset a = offset b \<and>
   compressedSize a = compressedSize b \<and> compressionMethod a = compressionMethod b"
  by (cases a, cases b) simp

lemma blank_encrypted_agree:
  "a\<lparr>encrypted := False\<rparr> = b\<lparr>encrypted := False\<rparr> \<Longrightarrow>
   filename a = filename b \<and> offset a = offset b \<and>
   compressedSize a = compressedSize b \<and> compressionMethod a = compressionMethod b"
  by (cases a, cases b) simp

text \<open>
  The outcome of a call is a function of the buffer and of four fields of the entries:
  \<open>filename\<close>, \<open>offset\<close>, \<open>compressedSize\<close> and \<open>compressionMethod\<close>.
\<close>

lemma extractFile_agree:
  assumes dv: "dataView this' = dataView this"
    and fs: "list_all2 (\<lambda>a b. filename a = filename b \<and> offset a = offset b \<and>
               compressedSize a = compressedSize b \<and>
               compressionMethod a = compressionMethod b) (files this') (files this)"
  shows "fst (extractFile this' name) = fst (extractFile this name)"
proof -
  let ?R = "\<lambda>a b. filename a = filename b \<and> offset a = offset b \<and>
               compressedSize a = compressedSize b \<and>
               compressionMethod a = compressionMethod b"
  have rel: "rel_option ?R (find (\<lambda>f. filename f = name) (files this'))
               (find (\<lambda>f. filename f = name) (files this))"
    using fs by (rule find_agree) simp
  show ?thesis
  proof (cases "find (\<lambda>f. filename f = name) (files this)")
    case None
    with rel have "find (\<lambda>f. filename f = name) (files this') = None"
      by (cases "find (\<lambda>f. filename f = name) (files this')") simp_all
    with None show ?thesis
      by (simp add: extractFile_not_found)
  next
    case (Some b)
    with rel obtain a where a: "find (\<lambda>f. filename f = name) (files this') = Some a"
      and ab: "?R a b"
      by (cases "find (\<lambda>f. filename f = name) (files this')") simp_all
    show ?thesis
      unfolding extractFile_found [OF a] extractFile_found [OF Some]
      using ab dv by (simp cong: if_cong)
  qed
qed

subsection \<open>Calendar arithmetic\<close>

declare year_search.simps [simp del]

lemma div_step:
  fixes x k :: int
  assumes "0 < k"
  shows "(x + 1) div k = x div k + (if (x + 1) mod k = 0 then 1 else 0)"
proof (cases "x mod k = k - 1")
  case True
  have e: "x = k * (x div k) + x mod k"
    by simp
  have "x + 1 = k * (x div k) + k"
    using e True by linarith
  then have "x + 1 = k * (x div k + 1) + 0"
    by (simp add: algebra_simps)
  from int_div_pos_eq [OF this] int_mod_pos_eq [OF this] assms
  show ?thesis by simp
next
  case False
  have r: "0 \<le> x mod k" "x mod k < k"
    using assms by simp_all
  have e: "x = k * (x div k) + x mod k"
    by simp
  have "x + 1 = k * (x div k) + (x mod k + 1)"
    using e by linarith
  from int_div_pos_eq [OF this] int_mod_pos_eq [OF this] r False
  show ?thesis by simp
qed

lemma mod4_shift: "(y - 1968) mod 4 = (y :: int) mod 4"
  by presburger

lemma mod100_shift: "(y - 1900) mod 100 = (y :: int) mod 100"
proof -
  have "y - 1900 = y + 100 * (- 19)" by simp
  then show ?thesis by (simp only: mod_mult_self2)
qed

lemma mod400_shift: "(y - 1600) mod 400 = (y :: int) mod 400"
proof -
  have "y - 1600 = y + 400 * (- 4)" by simp
  then show ?thesis by (simp only: mod_mult_self2)
qed

lemma mod100_mod4: "(y :: int) mod 100 = 0 \<Longrightarrow> y mod 4 = 0"
  by presburger

lemma mod400_mod100: "(y :: int) mod 400 = 0 \<Longrightarrow> y mod 100 = 0"
proof -
  assume "y mod 400 = 0"
  then have "400 dvd y" by (simp add: dvd_eq_mod_eq_0)
  moreover have "(100::int) dvd 400" by simp
  ultimately have "100 dvd y" by (rule dvd_trans [rotated])
  then show ?thesis by (simp add: dvd_eq_mod_eq_0)
qed

lemma DayFromYear_Suc: "DayFromYear (y + 1) = DayFromYear y + DaysInYear y"
proof -
  have a: "(y + 1 - 1969) div 4 = (y - 1969) div 4 + (if y mod 4 = 0 then 1 else 0)"
    using div_step [of 4 "y - 1969"] mod4_shift [of y] by (simp add: algebra_simps)
  have b: "(y + 1 - 1901) div 100 = (y - 1901) div 100 + (if y mod 100 = 0 then 1 else 0)"
    using div_step [of 100 "y - 1901"] mod100_shift [of y] by (simp add: algebra_simps)
  have c: "(y + 1 - 1601) div 400 = (y - 1601) div 400 + (if y mod 400 = 0 then 1 else 0)"
    using div_step [of 400 "y - 1601"] mod400_shift [of y] by (simp add: algebra_simps)
  show ?thesis
    unfolding DayFromYear_def DaysInYear_def a b c
    using mod100_mod4 [of y] mod400_mod100 [of y]
    by auto
qed


lemma DaysInYear_bounds: "365 \<le> DaysInYear y \<and> DaysInYear y \<le> 366"
  by (simp add: DaysInYear_def)

lemma DayFromYear_add: "DayFromYear y + 365 * int n \<le> DayFromYear (y + int n) \<and>
   DayFromYear (y + int n) \<le> DayFromYear y + 366 * int n"
proof (induction n)
  case 0
  show ?case by simp
next
  case (Suc n)
  have "DayFromYear (y + int (Suc n)) = DayFromYear (y + int n) + DaysInYear (y + int n)"
    using DayFromYear_Suc [of "y + int n"] by (simp add: algebra_simps)
  with Suc DaysInYear_bounds [of "y + int n"] show ?case by simp
qed

lemma DayFromYear_strict_mono: "y < y' \<Longrightarrow> DayFromYear y < DayFromYear y'"
proof -
  assume "y < y'"
  then have n: "y' = y + int (nat (y' - y))" "0 < nat (y' - y)"
    by simp_all
  from DayFromYear_add [of y "nat (y' - y)"] n(2)
  have "DayFromYear y < DayFromYear (y + int (nat (y' - y)))"
    by simp
  with n(1) show ?thesis by simp
qed

lemma DayFromYear_mono: "y \<le> y' \<Longrightarrow> DayFromYear y \<le> DayFromYear y'"
  using DayFromYear_strict_mono [of y y'] by (cases "y = y'") simp_all

lemma DayFromYear_1970: "DayFromYear 1970 = 0"
  by (simp add: DayFromYear_def)

lemma year_start_valid: "0 \<le> d \<Longrightarrow> DayFromYear (1970 + d div 366) \<le> d"
proof -
  assume d: "0 \<le> d"
  then have "0 \<le> d div 366"
    by (simp add: pos_imp_zdiv_nonneg_iff)
  then obtain n where n: "d div 366 = int n"
    using nonneg_int_cases by blast
  from DayFromYear_add [of 1970 n] have "DayFromYear (1970 + int n) \<le> 366 * int n"
    by (simp add: DayFromYear_1970)
  moreover have "366 * (d div 366) \<le> d"
  proof -
    have "d = 366 * (d div 366) + d mod 366" by simp
    moreover have "0 \<le> d mod 366" by simp
    ultimately show ?thesis by linarith
  qed
  ultimately show ?thesis
    using n by simp
qed

lemma year_search_correct:
  "y0 \<le> y \<Longrightarrow> DayFromYear y \<le> d \<Longrightarrow> d < DayFromYear (y + 1) \<Longrightarrow> year_search d y0 = y"
proof (induction "nat (y - y0)" arbitrary: y0)
  case 0
  then have "y0 = y" by simp
  with "0.prems" show ?case
    by (simp add: year_search.simps [of d y])
next
  case (Suc n)
  then have lt: "y0 < y" by simp
  then have "y0 + 1 \<le> y" by simp
  then have "DayFromYear (y0 + 1) \<le> DayFromYear y"
    by (rule DayFromYear_mono)
  with Suc.prems have step: "year_search d y0 = year_search d (y0 + 1)"
    by (simp add: year_search.simps [of d y0])
  have "n = nat (y - (y0 + 1))"
    using Suc.hyps(2) by simp
  from Suc.hyps(1) [OF this \<open>y0 + 1 \<le> y\<close> Suc.prems(2) Suc.prems(3)] step
  show ?case by simp
qed

lemma YearFromTime_eq:
  assumes "0 \<le> Day t" and lo: "DayFromYear y \<le> Day t" and hi: "Day t < DayFromYear (y + 1)"
  shows "YearFromTime t = y"
proof -
  let ?y0 = "1970 + Day t div 366"
  have "DayFromYear ?y0 \<le> Day t"
    using assms(1) by (rule year_start_valid)
  with hi have "DayFromYear ?y0 < DayFromYear (y + 1)"
    by simp
  have "?y0 \<le> y"
  proof (rule ccontr)
    assume "\<not> ?y0 \<le> y"
    then have "y + 1 \<le> ?y0" by simp
    then have "DayFromYear (y + 1) \<le> DayFromYear ?y0"
      by (rule DayFromYear_mono)
    with \<open>DayFromYear ?y0 < DayFromYear (y + 1)\<close> show False by simp
  qed
  from year_search_correct [OF this lo hi] assms(1) show ?thesis
    by (simp add: YearFromTime_def Let_def)
qed


lemma Day_MakeDate: "0 \<le> time \<Longrightarrow> time < msPerDay \<Longrightarrow> Day (MakeDate day time) = day"
proof -
  assume t: "0 \<le> time" "time < msPerDay"
  have "MakeDate day time = msPerDay * day + time"
    by (simp add: MakeDate_def)
  from int_div_pos_eq [OF this t] show ?thesis
    by (simp add: Day_def)
qed

lemma MakeTime_bounds:
  "0 \<le> h \<Longrightarrow> h \<le> 23 \<Longrightarrow> 0 \<le> mi \<Longrightarrow> mi \<le> 59 \<Longrightarrow> 0 \<le> s \<Longrightarrow> s \<le> 59 \<Longrightarrow>
   0 \<le> MakeTime h mi s 0 \<and> MakeTime h mi s 0 < msPerDay"
  by (simp add: MakeTime_def msPerDay_def)

lemma time_fields:
  assumes "0 \<le> h" "h \<le> 23" "0 \<le> mi" "mi \<le> 59" "0 \<le> s" "s \<le> 59"
  shows "HourFromTime (MakeDate day (MakeTime h mi s 0)) = h \<and>
         MinFromTime (MakeDate day (MakeTime h mi s 0)) = mi \<and>
         SecFromTime (MakeDate day (MakeTime h mi s 0)) = s"
proof -
  let ?t = "MakeDate day (MakeTime h mi s 0)"
  have hq: "?t = 3600000 * (day * 24 + h) + (mi * 60000 + s * 1000)"
    by (simp add: MakeDate_def MakeTime_def msPerDay_def)
  have "0 \<le> mi * 60000 + s * 1000" "mi * 60000 + s * 1000 < 3600000"
    using assms by simp_all
  from int_div_pos_eq [OF hq this] have "?t div 3600000 = day * 24 + h" .
  moreover have "(day * 24 + h) mod 24 = h"
    using assms by simp
  ultimately have hour: "HourFromTime ?t = h"
    by (simp add: HourFromTime_def)
  have mq: "?t = 60000 * (day * 1440 + h * 60 + mi) + s * 1000"
    by (simp add: MakeDate_def MakeTime_def msPerDay_def)
  have "0 \<le> s * 1000" "s * 1000 < 60000"
    using assms by simp_all
  from int_div_pos_eq [OF mq this] have "?t div 60000 = day * 1440 + h * 60 + mi" .
  moreover have "(day * 1440 + h * 60 + mi) mod 60 = mi"
  proof -
    have "day * 1440 + h * 60 + mi = 60 * (day * 24 + h) + mi" by simp
    from int_mod_pos_eq [OF this] assms show ?thesis by simp
  qed
  ultimately have minute: "MinFromTime ?t = mi"
    by (simp add: MinFromTime_def)
  have sq: "?t = 1000 * (day * 86400 + h * 3600 + mi * 60 + s) + 0"
    by (simp add: MakeDate_def MakeTime_def msPerDay_def)
  from int_div_pos_eq [OF sq] have "?t div 1000 = day * 86400 + h * 3600 + mi * 60 + s"
    by simp
  moreover have "(day * 86400 + h * 3600 + mi * 60 + s) mod 60 = s"
  proof -
    have "day * 86400 + h * 3600 + mi * 60 + s = 60 * (day * 1440 + h * 60 + mi) + s" by simp
    from int_mod_pos_eq [OF this] assms show ?thesis by simp
  qed
  ultimately have second: "SecFromTime ?t = s"
    by (simp add: SecFromTime_def)
  from hour minute second show ?thesis by simp
qed

lemma month_cases:
  "0 \<le> mn \<Longrightarrow> mn \<le> 11 \<Longrightarrow>
   mn = 0 \<or> mn = 1 \<or> mn = 2 \<or> mn = 3 \<or> mn = 4 \<or> mn = 5 \<or> mn = 6 \<or> mn = 7 \<or> mn = 8 \<or>
   mn = 9 \<or> mn = 10 \<or> mn = (11::int)"
  by arith

lemma leap_day_cases: "(leap_day y = 0 \<or> leap_day y = 1) \<and> DaysInYear y = 365 + leap_day y"
  by (simp add: leap_day_def DaysInYear_def)

lemma day_within_year:
  assumes "0 \<le> mn" "mn \<le> 11" "1 \<le> dt" "dt \<le> days_in_month y mn"
  shows "0 \<le> month_start y mn + dt - 1 \<and> month_start y mn + dt - 1 < DaysInYear y"
proof -
  from leap_day_cases [of y]
  have l: "0 \<le> leap_day y" "leap_day y \<le> 1" "DaysInYear y = 365 + leap_day y"
    by auto
  from month_cases [OF assms(1,2)] assms(3,4) l show ?thesis
    by (elim disjE) (simp_all add: month_start_def days_in_month_def)
qed

lemma calendar_fields:
  assumes y: "1970 \<le> y" and mn: "0 \<le> mn" "mn \<le> 11"
    and dt: "1 \<le> dt" "dt \<le> days_in_month y mn"
    and time: "0 \<le> time" "time < msPerDay"
  shows "YearFromTime (MakeDate (MakeDay y mn dt) time) = y \<and>
         MonthFromTime (MakeDate (MakeDay y mn dt) time) = mn \<and>
         DateFromTime (MakeDate (MakeDay y mn dt) time) = dt"
proof -
  let ?t = "MakeDate (MakeDay y mn dt) time"
  from leap_day_cases [of y]
  have l: "0 \<le> leap_day y" "leap_day y \<le> 1" "DaysInYear y = 365 + leap_day y"
    by auto
  have md: "MakeDay y mn dt = DayFromYear y + (month_start y mn + dt - 1)"
    using mn by (simp add: MakeDay_def Let_def)
  have day: "Day ?t = DayFromYear y + (month_start y mn + dt - 1)"
    using Day_MakeDate [OF time] md by simp
  from day_within_year [OF mn dt]
  have w: "0 \<le> month_start y mn + dt - 1" "month_start y mn + dt - 1 < DaysInYear y"
    by simp_all
  have "DayFromYear 1970 \<le> DayFromYear y"
    using y by (rule DayFromYear_mono)
  then have nonneg: "0 \<le> Day ?t"
    using w day by (simp add: DayFromYear_1970)
  have yr: "YearFromTime ?t = y"
    using nonneg day w by (intro YearFromTime_eq) (simp_all add: DayFromYear_Suc)
  have dwy: "DayWithinYear ?t = month_start y mn + dt - 1"
    by (simp add: DayWithinYear_def yr day)
  have leap: "InLeapYear ?t = leap_day y"
    by (simp add: InLeapYear_def yr)
  have mo: "MonthFromTime ?t = mn"
    unfolding MonthFromTime_def dwy leap Let_def
    using month_cases [OF mn] dt l(1,2)
    by (elim disjE) (simp_all add: month_start_def days_in_month_def)
  have "DateFromTime ?t = dt"
    unfolding DateFromTime_def mo dwy leap Let_def
    using month_cases [OF mn] dt l(1,2)
    by (elim disjE) (simp_all add: month_start_def days_in_month_def)
  with yr mo show ?thesis by simp
qed

subsection \<open>Field values and the packed date and time\<close>

lemma le_value_bounds: "0 \<le> le_value bs \<and> le_value bs < 256 ^ length bs"
proof (induction bs)
  case Nil
  show ?case by simp
next
  case (Cons b bs)
  have "0 \<le> uint b" "uint b < 256"
    using uint_lt2p [of b] by simp_all
  with Cons show ?case by simp
qed

lemma getUint16_bounds: "getUint16 dv p = Inr v \<Longrightarrow> 0 \<le> v \<and> v < 65536"
proof -
  assume "getUint16 dv p = Inr v"
  then have v: "v = le_value (take 2 (drop (nat p) dv))"
    and len: "length (take 2 (drop (nat p) dv)) = 2"
    by (auto simp: getUint16_def split: if_splits)
  from le_value_bounds [of "take 2 (drop (nat p) dv)"] show ?thesis
    unfolding len v by simp
qed

lemma getUint32_bounds: "getUint32 dv p = Inr v \<Longrightarrow> 0 \<le> v \<and> v < 4294967296"
proof -
  assume "getUint32 dv p = Inr v"
  then have v: "v = le_value (take 4 (drop (nat p) dv))"
    and len: "length (take 4 (drop (nat p) dv)) = 4"
    by (auto simp: getUint32_def split: if_splits)
  from le_value_bounds [of "take 4 (drop (nat p) dv)"] show ?thesis
    unfolding len v by simp
qed

lemma ToInt32_small: "0 \<le> x \<Longrightarrow> x < 2147483648 \<Longrightarrow> ToInt32 x = x"
  by (simp add: ToInt32_def int_word_sint)

lemma drop_bit_small:
  "0 \<le> x \<Longrightarrow> x < 65536 \<Longrightarrow> 0 \<le> drop_bit n x \<and> drop_bit n (x::int) < 65536"
proof -
  assume x: "0 \<le> x" "x < 65536"
  have "drop_bit n x = x div 2 ^ n"
    by (rule drop_bit_eq_div)
  moreover have "x div 2 ^ n \<le> x"
  proof (cases "x = 0")
    case True
    then show ?thesis by simp
  next
    case False
    with x have "0 < x" by simp
    then show ?thesis by (rule int_div_le_self)
  qed
  moreover have "0 \<le> x div 2 ^ n"
    using x by (simp add: pos_imp_zdiv_nonneg_iff)
  ultimately show ?thesis using x by simp
qed

lemma js_sar_small:
  "0 \<le> x \<Longrightarrow> x < 65536 \<Longrightarrow> n < 32 \<Longrightarrow> js_sar x n = drop_bit n x"
  by (simp add: js_sar_def ToInt32_small)

lemma js_and_mask:
  "0 \<le> x \<Longrightarrow> x < 65536 \<Longrightarrow> m = mask k \<Longrightarrow> 0 \<le> m \<Longrightarrow> m < 65536 \<Longrightarrow>
   js_and x m = take_bit k x"
  by (simp add: js_and_def ToInt32_small take_bit_eq_mask)

lemma dosDateTimeToDate_bits:
  assumes d: "0 \<le> dosDate" "dosDate < 65536" and t: "0 \<le> dosTime" "dosTime < 65536"
  shows "dosDateTimeToDate dosDate dosTime =
     new_Date (take_bit 7 (drop_bit 9 dosDate) + 1980) (take_bit 4 (drop_bit 5 dosDate) - 1)
       (take_bit 5 dosDate) (take_bit 5 (drop_bit 11 dosTime))
       (take_bit 6 (drop_bit 5 dosTime)) (take_bit 5 dosTime * 2)"
proof -
  have m7: "(0x7f::int) = mask 7" and m4: "(0x0f::int) = mask 4"
    and m5: "(0x1f::int) = mask 5" and m6: "(0x3f::int) = mask 6"
    by (simp_all add: mask_eq_exp_minus_1)
  have y: "js_and (js_sar dosDate 9) 0x7f = take_bit 7 (drop_bit 9 dosDate)"
    using d drop_bit_small [of dosDate 9] by (simp add: js_sar_small js_and_mask [OF _ _ m7])
  have mo: "js_and (js_sar dosDate 5) 0x0f = take_bit 4 (drop_bit 5 dosDate)"
    using d drop_bit_small [of dosDate 5] by (simp add: js_sar_small js_and_mask [OF _ _ m4])
  have da: "js_and dosDate 0x1f = take_bit 5 dosDate"
    using d by (simp add: js_and_mask [OF _ _ m5])
  have h: "js_and (js_sar dosTime 11) 0x1f = take_bit 5 (drop_bit 11 dosTime)"
    using t drop_bit_small [of dosTime 11] by (simp add: js_sar_small js_and_mask [OF _ _ m5])
  have mi: "js_and (js_sar dosTime 5) 0x3f = take_bit 6 (drop_bit 5 dosTime)"
    using t drop_bit_small [of dosTime 5] by (simp add: js_sar_small js_and_mask [OF _ _ m6])
  have s: "js_and dosTime 0x1f = take_bit 5 dosTime"
    using t by (simp add: js_and_mask [OF _ _ m5])
  show ?thesis
    unfolding dosDateTimeToDate_def Let_def y mo da h mi s by simp
qed

lemma parseCentralDirectoryEntry_fields:
  assumes "parseCentralDirectoryEntry decode dv offs = Inr e"
  shows "\<exists>generalPurpose lastModTime lastModDate filenameLen filenameBytes.
     getUint16 dv (offs + 8) = Inr generalPurpose \<and>
     getUint16 dv (offs + 10) = Inr (compressionMethod e) \<and>
     getUint16 dv (offs + 12) = Inr lastModTime \<and>
     getUint16 dv (offs + 14) = Inr lastModDate \<and>
     getUint32 dv (offs + 16) = Inr (crc32 e) \<and>
     getUint32 dv (offs + 20) = Inr (compressedSize e) \<and>
     getUint32 dv (offs + 24) = Inr (uncompressedSize e) \<and>
     getUint16 dv (offs + 28) = Inr filenameLen \<and>
     getUint32 dv (offs + 42) = Inr (offset e) \<and>
     Uint8Array dv (offs + 46) filenameLen = Inr filenameBytes \<and>
     filename e = decode filenameBytes \<and>
     encrypted e = (js_and generalPurpose 0x0001 \<noteq> 0) \<and>
     lastModified e = dosDateTimeToDate lastModDate lastModTime"
  using assms unfolding parseCentralDirectoryEntry_def try_bind_eq_Inr
  by (elim exE conjE) auto

lemma js_and_bit0:
  "0 \<le> x \<Longrightarrow> x < 65536 \<Longrightarrow> (js_and x 0x0001 \<noteq> 0) = bit x 0"
  by (simp add: js_and_def ToInt32_small and_one_eq bit_0 mod_2_eq_odd)

subsection \<open>The directory walk\<close>

lemma parse_loop_stop: "\<not> i < n \<Longrightarrow> parse_loop decode dv n i offs fs = Inr fs"
  by (simp add: parse_loop.simps [of decode dv n i offs fs])

lemma parse_loop_bad_signature:
  "i < n \<Longrightarrow> getUint32 dv offs = Inr s \<Longrightarrow> s \<noteq> 0x02014b50 \<Longrightarrow>
   parse_loop decode dv n i offs fs = Inl InvalidCentralDirectorySignature"
  by (simp add: parse_loop.simps [of decode dv n i offs fs])

lemma record_lengths_readable:
  assumes sig: "getUint32 dv offs = Inr s"
    and rec: "parseCentralDirectoryEntry decode dv offs = Inr e"
  shows "getUint16 dv (offs + 28) = Inr (spec_field16 dv (offs + 28)) \<and>
         getUint16 dv (offs + 30) = Inr (spec_field16 dv (offs + 30)) \<and>
         getUint16 dv (offs + 32) = Inr (spec_field16 dv (offs + 32))"
proof -
  from sig have lo: "0 \<le> offs"
    by (simp add: getUint32_Inr_iff)
  from parseCentralDirectoryEntry_fields [OF rec]
  obtain v where "getUint32 dv (offs + 42) = Inr v"
    by blast
  then have hi: "offs + 46 \<le> int (length dv)"
    by (simp add: getUint32_Inr_iff)
  from lo hi show ?thesis
    by (simp add: getUint16_in_range spec_field16_def)
qed

lemma parse_loop_step:
  assumes "i < n" and sig: "getUint32 dv offs = Inr 0x02014b50"
    and rec: "parseCentralDirectoryEntry decode dv offs = Inr e"
  shows "parse_loop decode dv n i offs fs =
         parse_loop decode dv n (i + 1) (offs + spec_stride dv offs) (fs @ [e])"
  using assms record_lengths_readable [OF sig rec]
  by (simp add: parse_loop.simps [of decode dv n i offs fs] spec_stride_def)

lemma parse_loop_Inr_record:
  assumes "i < n" and "parse_loop decode dv n i offs fs = Inr r"
  shows "getUint32 dv offs = Inr 0x02014b50 \<and>
         (\<exists>e. parseCentralDirectoryEntry decode dv offs = Inr e)"
  using assms
  by (auto simp: parse_loop.simps [of decode dv n i offs fs] try_bind_eq_Inr split: if_splits)

lemma parse_loop_Inr:
  "parse_loop decode dv n i offs fs = Inr r \<Longrightarrow>
   \<exists>es. r = fs @ es \<and> int (length es) = max 0 (n - i) \<and>
     (\<forall>k<length es.
        getUint32 dv (spec_cursor dv offs k) = Inr 0x02014b50 \<and>
        parseCentralDirectoryEntry decode dv (spec_cursor dv offs k) = Inr (es ! k))"
proof (induction decode dv n i offs fs rule: parse_loop.induct)
  case (1 decode dv n i offs fs)
  show ?case
  proof (cases "i < n")
    case False
    with "1.prems" have "r = fs @ []"
      by (simp add: parse_loop_stop)
    with False show ?thesis by auto
  next
    case True
    from parse_loop_Inr_record [OF True "1.prems"]
    obtain e where sig: "getUint32 dv offs = Inr 0x02014b50"
      and rec: "parseCentralDirectoryEntry decode dv offs = Inr e"
      by blast
    have ok: "\<not> (0x02014b50::int) \<noteq> 0x02014b50"
      by simp
    have run: "parse_loop decode dv n (i + 1)
        (offs + (46 + spec_field16 dv (offs + 28) + spec_field16 dv (offs + 30) +
           spec_field16 dv (offs + 32))) (fs @ [e]) = Inr r"
      using "1.prems" parse_loop_step [OF True sig rec, of fs]
      by (simp add: spec_stride_def)
    from "1.IH" [OF True ok run]
    obtain es where r: "r = (fs @ [e]) @ es"
      and len: "int (length es) = max 0 (n - (i + 1))"
      and recs: "\<forall>k<length es.
        getUint32 dv (spec_cursor dv (offs + (46 + spec_field16 dv (offs + 28) +
           spec_field16 dv (offs + 30) + spec_field16 dv (offs + 32))) k) = Inr 0x02014b50 \<and>
        parseCentralDirectoryEntry decode dv (spec_cursor dv (offs + (46 +
           spec_field16 dv (offs + 28) + spec_field16 dv (offs + 30) +
           spec_field16 dv (offs + 32))) k) = Inr (es ! k)"
      by blast
    have all: "getUint32 dv (spec_cursor dv offs k) = Inr 0x02014b50 \<and>
        parseCentralDirectoryEntry decode dv (spec_cursor dv offs k) = Inr ((e # es) ! k)"
      if "k < length (e # es)" for k
    proof (cases k)
      case 0
      with sig rec show ?thesis by simp
    next
      case (Suc k')
      with that have "k' < length es" by simp
      with recs Suc show ?thesis
        by (simp add: spec_stride_def)
    qed
    have "r = fs @ (e # es)"
      using r by simp
    moreover have "int (length (e # es)) = max 0 (n - i)"
      using len True by simp
    ultimately show ?thesis
      using all by blast
  qed
qed

lemma parse_loop_mismatch:
  "i + int k < n \<Longrightarrow>
   (\<forall>j<k. getUint32 dv (spec_cursor dv offs j) = Inr 0x02014b50 \<and>
      (\<exists>e. parseCentralDirectoryEntry decode dv (spec_cursor dv offs j) = Inr e)) \<Longrightarrow>
   getUint32 dv (spec_cursor dv offs k) = Inr s \<Longrightarrow> s \<noteq> 0x02014b50 \<Longrightarrow>
   parse_loop decode dv n i offs fs = Inl InvalidCentralDirectorySignature"
proof (induction k arbitrary: i offs fs)
  case 0
  then show ?case
    by (simp add: parse_loop_bad_signature)
next
  case (Suc k)
  from Suc.prems(1) have i: "i < n" by simp
  from Suc.prems(2) have first: "getUint32 dv (spec_cursor dv offs 0) = Inr 0x02014b50 \<and>
      (\<exists>e. parseCentralDirectoryEntry decode dv (spec_cursor dv offs 0) = Inr e)"
    by blast
  then obtain e where sig: "getUint32 dv offs = Inr 0x02014b50"
    and rec: "parseCentralDirectoryEntry decode dv offs = Inr e"
    by auto
  have rest: "\<forall>j<k. getUint32 dv (spec_cursor dv (offs + spec_stride dv offs) j) = Inr 0x02014b50 \<and>
      (\<exists>e. parseCentralDirectoryEntry decode dv (spec_cursor dv (offs + spec_stride dv offs) j) = Inr e)"
  proof (intro allI impI)
    fix j assume "j < k"
    then have "Suc j < Suc k" by simp
    with Suc.prems(2) show "getUint32 dv (spec_cursor dv (offs + spec_stride dv offs) j) = Inr 0x02014b50 \<and>
      (\<exists>e. parseCentralDirectoryEntry decode dv (spec_cursor dv (offs + spec_stride dv offs) j) = Inr e)"
      by (metis spec_cursor.simps(2))
  qed
  have bad: "getUint32 dv (spec_cursor dv (offs + spec_stride dv offs) k) = Inr s"
    using Suc.prems(3) by simp
  have "i + 1 + int k < n"
    using Suc.prems(1) by simp
  from Suc.IH [OF this rest bad Suc.prems(4)]
  show ?case
    by (simp add: parse_loop_step [OF i sig rec])
qed

lemma findEOCD_found_range:
  assumes "findEOCD dv = Inr eocdOffset" and "eocdOffset \<noteq> - 1"
  shows "0 \<le> eocdOffset \<and> eocdOffset + 22 \<le> int (length dv)"
proof -
  from assms(1) have "findEOCD_loop dv (max 0 (int (length dv) - 65535 - 22))
      (int (length dv) - 22) = Inr eocdOffset"
    by (simp add: findEOCD_def)
  from findEOCD_loop_found [OF this assms(2)] show ?thesis
    by simp
qed

lemma parse_Inr:
  assumes "parse decode dv = Inr fs"
  shows "\<exists>eocdOffset centralDirOffset numEntries.
     findEOCD dv = Inr eocdOffset \<and> eocdOffset \<noteq> - 1 \<and>
     getUint32 dv (eocdOffset + 16) = Inr centralDirOffset \<and>
     getUint16 dv (eocdOffset + 10) = Inr numEntries \<and>
     parse_loop decode dv numEntries 0 centralDirOffset [] = Inr fs"
  using assms unfolding parse_def try_bind_eq_Inr
  by (auto split: if_splits simp: try_bind_eq_Inr)

lemma parse_found:
  assumes e: "findEOCD dv = Inr eocdOffset" "eocdOffset \<noteq> - 1"
    and c: "getUint32 dv (eocdOffset + 16) = Inr centralDirOffset"
    and n: "getUint16 dv (eocdOffset + 10) = Inr numEntries"
  shows "parse decode dv = parse_loop decode dv numEntries 0 centralDirOffset []"
proof -
  from findEOCD_found_range [OF e]
  have "getUint32 dv (eocdOffset + 12) =
      Inr (le_value (take 4 (drop (nat (eocdOffset + 12)) dv)))"
    by (intro getUint32_in_range) simp_all
  with e c n show ?thesis
    by (simp add: parse_def)
qed

subsection \<open>Records, dates and sound directories\<close>

lemma parseCentralDirectoryEntry_total:
  assumes "0 \<le> offs" and "offs + 46 + spec_field16 dv (offs + 28) \<le> int (length dv)"
  shows "\<exists>e. parseCentralDirectoryEntry decode dv offs = Inr e"
proof -
  have n: "0 \<le> spec_field16 dv (offs + 28)"
    using le_value_bounds [of "take 2 (drop (nat (offs + 28)) dv)"]
    by (simp add: spec_field16_def)
  with assms have len: "offs + 46 \<le> int (length dv)"
    by simp
  have fl: "getUint16 dv (offs + 28) = Inr (spec_field16 dv (offs + 28))"
    using assms(1) len by (simp add: getUint16_in_range spec_field16_def)
  have name: "Uint8Array dv (offs + 46) (spec_field16 dv (offs + 28)) =
      Inr (take (nat (spec_field16 dv (offs + 28))) (drop (nat (offs + 46)) dv))"
    using assms n by (simp add: Uint8Array_def)
  show ?thesis
    unfolding parseCentralDirectoryEntry_def
    using assms(1) len fl name
    by (simp add: getUint16_in_range getUint32_in_range)
qed

lemma local_fields:
  assumes zone: "tz (finalDate d - tz (finalDate d) False) True = tz (finalDate d) False"
  shows "LocalTime tz (timeValue tz d) = finalDate d"
  using zone by (simp add: LocalTime_def timeValue_def UTC_def)

lemma new_Date_fields:
  assumes y: "1970 \<le> y" and mn: "0 \<le> mn" "mn \<le> 11"
    and dt: "1 \<le> dt" "dt \<le> days_in_month y mn"
    and tm: "0 \<le> h" "h \<le> 23" "0 \<le> mi" "mi \<le> 59" "0 \<le> s" "s \<le> 59"
    and zone: "tz (finalDate (new_Date y mn dt h mi s) - tz (finalDate (new_Date y mn dt h mi s)) False) True =
               tz (finalDate (new_Date y mn dt h mi s)) False"
  shows "getFullYear tz (new_Date y mn dt h mi s) = y \<and>
         getMonth tz (new_Date y mn dt h mi s) = mn \<and>
         getDate tz (new_Date y mn dt h mi s) = dt \<and>
         getHours tz (new_Date y mn dt h mi s) = h \<and>
         getMinutes tz (new_Date y mn dt h mi s) = mi \<and>
         getSeconds tz (new_Date y mn dt h mi s) = s"
proof -
  have fy: "MakeFullYear y = y"
    using y by (simp add: MakeFullYear_def)
  have fd: "finalDate (new_Date y mn dt h mi s) = MakeDate (MakeDay y mn dt) (MakeTime h mi s 0)"
    by (simp add: new_Date_def fy)
  from MakeTime_bounds [OF tm]
  have tb: "0 \<le> MakeTime h mi s 0" "MakeTime h mi s 0 < msPerDay"
    by simp_all
  from calendar_fields [OF y mn dt tb] time_fields [OF tm, of "MakeDay y mn dt"]
  show ?thesis
    unfolding getFullYear_def getMonth_def getDate_def getHours_def getMinutes_def
      getSeconds_def local_fields [OF zone] fd
    by simp
qed

lemma take_bit_nonneg_int: "0 \<le> take_bit n (k::int)"
  by simp

lemma parse_loop_sound:
  "(\<forall>k. int k < n - i \<longrightarrow>
      getUint32 dv (spec_cursor dv offs k) = Inr 0x02014b50 \<and>
      spec_cursor dv offs k + 46 + spec_field16 dv (spec_cursor dv offs k + 28) \<le>
        int (length dv)) \<Longrightarrow>
   \<exists>r. parse_loop decode dv n i offs fs = Inr r"
proof (induction "nat (n - i)" arbitrary: i offs fs)
  case 0
  then have "\<not> i < n" by simp
  then show ?case by (simp add: parse_loop_stop)
next
  case (Suc m)
  then have i: "i < n" by simp
  then have "int 0 < n - i" by simp
  with Suc.prems have sig: "getUint32 dv offs = Inr 0x02014b50"
    and fits: "offs + 46 + spec_field16 dv (offs + 28) \<le> int (length dv)"
    by fastforce+
  from sig have "0 \<le> offs"
    by (simp add: getUint32_Inr_iff)
  from parseCentralDirectoryEntry_total [OF this fits]
  obtain e where rec: "parseCentralDirectoryEntry decode dv offs = Inr e"
    by blast
  have m: "m = nat (n - (i + 1))"
    using Suc.hyps(2) by simp
  have rest: "\<forall>k. int k < n - (i + 1) \<longrightarrow>
      getUint32 dv (spec_cursor dv (offs + spec_stride dv offs) k) = Inr 0x02014b50 \<and>
      spec_cursor dv (offs + spec_stride dv offs) k + 46 +
        spec_field16 dv (spec_cursor dv (offs + spec_stride dv offs) k + 28) \<le> int (length dv)"
  proof (intro allI impI)
    fix k assume "int k < n - (i + 1)"
    then have "int (Suc k) < n - i" by simp
    with Suc.prems
    have "getUint32 dv (spec_cursor dv offs (Suc k)) = Inr 0x02014b50 \<and>
      spec_cursor dv offs (Suc k) + 46 + spec_field16 dv (spec_cursor dv offs (Suc k) + 28) \<le>
        int (length dv)"
      by blast
    then show "getUint32 dv (spec_cursor dv (offs + spec_stride dv offs) k) = Inr 0x02014b50 \<and>
      spec_cursor dv (offs + spec_stride dv offs) k + 46 +
        spec_field16 dv (spec_cursor dv (offs + spec_stride dv offs) k + 28) \<le> int (length dv)"
      by simp
  qed
  from Suc.hyps(1) [OF m rest, of "fs @ [e]"]
  show ?case
    by (simp add: parse_loop_step [OF i sig rec])
qed

subsection \<open>Two buffers that differ in four bytes\<close>

lemma differ_only_at_nth:
  "differ_only_at dv dv' p \<Longrightarrow> j < length dv \<Longrightarrow> int j < p \<or> p + 4 \<le> int j \<Longrightarrow>
   dv' ! j = dv ! j"
  unfolding differ_only_at_def by (auto simp: list_all_iff)

lemma differ_only_at_length: "differ_only_at dv dv' p \<Longrightarrow> length dv' = length dv"
  unfolding differ_only_at_def by simp

lemma take_drop_agree:
  assumes d: "differ_only_at dv dv' p" and q: "0 \<le> q" and clear: "q + n \<le> p \<or> p + 4 \<le> q"
  shows "take (nat n) (drop (nat q) dv') = take (nat n) (drop (nat q) dv)"
proof (rule nth_equalityI)
  from d show "length (take (nat n) (drop (nat q) dv')) = length (take (nat n) (drop (nat q) dv))"
    by (simp add: differ_only_at_def)
next
  fix i
  assume "i < length (take (nat n) (drop (nat q) dv'))"
  with d have i: "i < nat n" "nat q + i < length dv"
    by (auto simp: differ_only_at_def)
  have "int (nat q + i) = q + int i"
    using q by simp
  moreover have "int i < n"
    using i(1) by simp
  ultimately have "int (nat q + i) < p \<or> p + 4 \<le> int (nat q + i)"
    using clear by linarith
  with d i(2) have "dv' ! (nat q + i) = dv ! (nat q + i)"
    by (rule differ_only_at_nth)
  with i d show "take (nat n) (drop (nat q) dv') ! i = take (nat n) (drop (nat q) dv) ! i"
    by (simp add: differ_only_at_def)
qed

lemma getUint16_agree:
  assumes "differ_only_at dv dv' p" and "q + 2 \<le> p \<or> p + 4 \<le> q"
  shows "getUint16 dv' q = getUint16 dv q"
proof (cases "0 \<le> q")
  case True
  from take_drop_agree [OF assms(1) True, of 2] assms(2)
  have "take 2 (drop (nat q) dv') = take 2 (drop (nat q) dv)"
    by simp
  with assms(1) show ?thesis
    by (simp add: getUint16_def differ_only_at_def)
next
  case False
  then show ?thesis by (simp add: getUint16_def)
qed

lemma getUint32_agree:
  assumes "differ_only_at dv dv' p" and "q + 4 \<le> p \<or> p + 4 \<le> q"
  shows "getUint32 dv' q = getUint32 dv q"
proof (cases "0 \<le> q")
  case True
  from take_drop_agree [OF assms(1) True, of 4] assms(2)
  have "take 4 (drop (nat q) dv') = take 4 (drop (nat q) dv)"
    by simp
  with assms(1) show ?thesis
    by (simp add: getUint32_def differ_only_at_def)
next
  case False
  then show ?thesis by (simp add: getUint32_def)
qed

lemma spec_field16_agree:
  assumes "differ_only_at dv dv' p" and "0 \<le> q" and "q + 2 \<le> p \<or> p + 4 \<le> q"
  shows "spec_field16 dv' q = spec_field16 dv q"
  using take_drop_agree [OF assms(1,2), of 2] assms(3)
  by (simp add: spec_field16_def)

lemma Uint8Array_agree:
  assumes "differ_only_at dv dv' p" and "q + n \<le> p \<or> p + 4 \<le> q"
  shows "Uint8Array dv' q n = Uint8Array dv q n"
proof (cases "0 \<le> q")
  case True
  from take_drop_agree [OF assms(1) True assms(2)] assms(1) show ?thesis
    by (simp add: Uint8Array_def differ_only_at_def)
next
  case False
  then show ?thesis by (simp add: Uint8Array_def)
qed

lemma getUint32_readable:
  "differ_only_at dv dv' p \<Longrightarrow> getUint32 dv q = Inr v \<Longrightarrow> \<exists>v'. getUint32 dv' q = Inr v'"
  by (simp add: getUint32_def differ_only_at_def split: if_splits)


lemma parseCentralDirectoryEntry_reads:
  assumes "parseCentralDirectoryEntry decode dv offs = Inr e"
  shows "\<exists>versionNeeded generalPurpose lastModTime lastModDate filenameLen filenameBytes.
     getUint16 dv (offs + 6) = Inr versionNeeded \<and>
     getUint16 dv (offs + 8) = Inr generalPurpose \<and>
     getUint16 dv (offs + 10) = Inr (compressionMethod e) \<and>
     getUint16 dv (offs + 12) = Inr lastModTime \<and>
     getUint16 dv (offs + 14) = Inr lastModDate \<and>
     getUint32 dv (offs + 16) = Inr (crc32 e) \<and>
     getUint32 dv (offs + 20) = Inr (compressedSize e) \<and>
     getUint32 dv (offs + 24) = Inr (uncompressedSize e) \<and>
     getUint16 dv (offs + 28) = Inr filenameLen \<and>
     getUint32 dv (offs + 42) = Inr (offset e) \<and>
     Uint8Array dv (offs + 46) filenameLen = Inr filenameBytes \<and>
     e = \<lparr>filename = decode filenameBytes,
          encrypted = (js_and generalPurpose 0x0001 \<noteq> 0),
          compressedSize = compressedSize e,
          uncompressedSize = uncompressedSize e,
          compressionMethod = compressionMethod e,
          crc32 = crc32 e,
          lastModified = dosDateTimeToDate lastModDate lastModTime,
          offset = offset e\<rparr>"
  using assms unfolding parseCentralDirectoryEntry_def try_bind_eq_Inr
  by (elim exE conjE) auto

lemma parse_agree_clear:
  assumes d: "differ_only_at dv dv' p"
    and rec: "parseCentralDirectoryEntry decode dv offs = Inr e"
    and clear: "offs + 46 + spec_field16 dv (offs + 28) \<le> p \<or> p + 4 \<le> offs + 6"
  shows "parseCentralDirectoryEntry decode dv' offs = Inr e"
proof -
  from parseCentralDirectoryEntry_reads [OF rec]
  obtain versionNeeded generalPurpose lastModTime lastModDate filenameLen filenameBytes where
    r: "getUint16 dv (offs + 6) = Inr versionNeeded"
      "getUint16 dv (offs + 8) = Inr generalPurpose"
      "getUint16 dv (offs + 10) = Inr (compressionMethod e)"
      "getUint16 dv (offs + 12) = Inr lastModTime"
      "getUint16 dv (offs + 14) = Inr lastModDate"
      "getUint32 dv (offs + 16) = Inr (crc32 e)"
      "getUint32 dv (offs + 20) = Inr (compressedSize e)"
      "getUint32 dv (offs + 24) = Inr (uncompressedSize e)"
      "getUint16 dv (offs + 28) = Inr filenameLen"
      "getUint32 dv (offs + 42) = Inr (offset e)"
      "Uint8Array dv (offs + 46) filenameLen = Inr filenameBytes"
    and e: "e = \<lparr>filename = decode filenameBytes,
          encrypted = (js_and generalPurpose 0x0001 \<noteq> 0),
          compressedSize = compressedSize e,
          uncompressedSize = uncompressedSize e,
          compressionMethod = compressionMethod e,
          crc32 = crc32 e,
          lastModified = dosDateTimeToDate lastModDate lastModTime,
          offset = offset e\<rparr>"
    by blast
  from r(9) have fl: "filenameLen = spec_field16 dv (offs + 28)" "0 \<le> filenameLen"
    using getUint16_bounds [OF r(9)] by (simp_all add: getUint16_Inr_iff spec_field16_def)
  from clear fl have c: "offs + 46 + filenameLen \<le> p \<or> p + 4 \<le> offs + 6"
    by simp
  have a: "getUint16 dv' (offs + 6) = getUint16 dv (offs + 6)"
    "getUint16 dv' (offs + 8) = getUint16 dv (offs + 8)"
    "getUint16 dv' (offs + 10) = getUint16 dv (offs + 10)"
    "getUint16 dv' (offs + 12) = getUint16 dv (offs + 12)"
    "getUint16 dv' (offs + 14) = getUint16 dv (offs + 14)"
    "getUint16 dv' (offs + 28) = getUint16 dv (offs + 28)"
    using c fl(2) by (auto intro!: getUint16_agree [OF d])
  have b: "getUint32 dv' (offs + 16) = getUint32 dv (offs + 16)"
    "getUint32 dv' (offs + 20) = getUint32 dv (offs + 20)"
    "getUint32 dv' (offs + 24) = getUint32 dv (offs + 24)"
    "getUint32 dv' (offs + 42) = getUint32 dv (offs + 42)"
    using c fl(2) by (auto intro!: getUint32_agree [OF d])
  have u: "Uint8Array dv' (offs + 46) filenameLen = Uint8Array dv (offs + 46) filenameLen"
    using c fl(2) by (auto intro!: Uint8Array_agree [OF d])
  have "parseCentralDirectoryEntry decode dv' offs =
      Inr \<lparr>filename = decode filenameBytes,
          encrypted = (js_and generalPurpose 0x0001 \<noteq> 0),
          compressedSize = compressedSize e,
          uncompressedSize = uncompressedSize e,
          compressionMethod = compressionMethod e,
          crc32 = crc32 e,
          lastModified = dosDateTimeToDate lastModDate lastModTime,
          offset = offset e\<rparr>"
    unfolding parseCentralDirectoryEntry_def a b by (simp add: r u)
  with e show ?thesis by simp
qed

lemma parse_agree_crc:
  assumes d: "differ_only_at dv dv' (offs + 16)"
    and rec: "parseCentralDirectoryEntry decode dv offs = Inr e"
  shows "\<exists>c'. getUint32 dv' (offs + 16) = Inr c' \<and>
           parseCentralDirectoryEntry decode dv' offs = Inr (e\<lparr>crc32 := c'\<rparr>)"
proof -
  from parseCentralDirectoryEntry_reads [OF rec]
  obtain versionNeeded generalPurpose lastModTime lastModDate filenameLen filenameBytes where
    r: "getUint16 dv (offs + 6) = Inr versionNeeded"
      "getUint16 dv (offs + 8) = Inr generalPurpose"
      "getUint16 dv (offs + 10) = Inr (compressionMethod e)"
      "getUint16 dv (offs + 12) = Inr lastModTime"
      "getUint16 dv (offs + 14) = Inr lastModDate"
      "getUint32 dv (offs + 16) = Inr (crc32 e)"
      "getUint32 dv (offs + 20) = Inr (compressedSize e)"
      "getUint32 dv (offs + 24) = Inr (uncompressedSize e)"
      "getUint16 dv (offs + 28) = Inr filenameLen"
      "getUint32 dv (offs + 42) = Inr (offset e)"
      "Uint8Array dv (offs + 46) filenameLen = Inr filenameBytes"
    and e: "e = \<lparr>filename = decode filenameBytes,
          encrypted = (js_and generalPurpose 0x0001 \<noteq> 0),
          compressedSize = compressedSize e,
          uncompressedSize = uncompressedSize e,
          compressionMethod = compressionMethod e,
          crc32 = crc32 e,
          lastModified = dosDateTimeToDate lastModDate lastModTime,
          offset = offset e\<rparr>"
    by blast
  from getUint32_readable [OF d r(6)] obtain c' where c': "getUint32 dv' (offs + 16) = Inr c'"
    by blast
  have a: "getUint16 dv' (offs + 6) = getUint16 dv (offs + 6)"
    "getUint16 dv' (offs + 8) = getUint16 dv (offs + 8)"
    "getUint16 dv' (offs + 10) = getUint16 dv (offs + 10)"
    "getUint16 dv' (offs + 12) = getUint16 dv (offs + 12)"
    "getUint16 dv' (offs + 14) = getUint16 dv (offs + 14)"
    "getUint16 dv' (offs + 28) = getUint16 dv (offs + 28)"
    by (auto intro!: getUint16_agree [OF d])
  have b: "getUint32 dv' (offs + 20) = getUint32 dv (offs + 20)"
    "getUint32 dv' (offs + 24) = getUint32 dv (offs + 24)"
    "getUint32 dv' (offs + 42) = getUint32 dv (offs + 42)"
    by (auto intro!: getUint32_agree [OF d])
  have u: "Uint8Array dv' (offs + 46) filenameLen = Uint8Array dv (offs + 46) filenameLen"
    by (auto intro!: Uint8Array_agree [OF d])
  have "parseCentralDirectoryEntry decode dv' offs =
      Inr \<lparr>filename = decode filenameBytes,
          encrypted = (js_and generalPurpose 0x0001 \<noteq> 0),
          compressedSize = compressedSize e,
          uncompressedSize = uncompressedSize e,
          compressionMethod = compressionMethod e,
          crc32 = c',
          lastModified = dosDateTimeToDate lastModDate lastModTime,
          offset = offset e\<rparr>"
    unfolding parseCentralDirectoryEntry_def a b by (simp add: r u c')
  moreover have "e\<lparr>crc32 := c'\<rparr> = \<lparr>filename = decode filenameBytes,
          encrypted = (js_and generalPurpose 0x0001 \<noteq> 0),
          compressedSize = compressedSize e,
          uncompressedSize = uncompressedSize e,
          compressionMethod = compressionMethod e,
          crc32 = c',
          lastModified = dosDateTimeToDate lastModDate lastModTime,
          offset = offset e\<rparr>"
    by (subst e) simp
  ultimately show ?thesis
    using c' by simp
qed


lemma findEOCD_loop_agree:
  "findEOCD_loop dv s i = Inr r \<Longrightarrow> r \<noteq> - 1 \<Longrightarrow> p + 4 \<le> r \<Longrightarrow> differ_only_at dv dv' p \<Longrightarrow>
   findEOCD_loop dv' s i = Inr r"
proof (induction dv s i rule: findEOCD_loop.induct)
  case (1 dv s i)
  from findEOCD_loop_found [OF "1.prems"(1,2)] have range: "s \<le> r" "r \<le> i"
    by simp_all
  then have True: "s \<le> i" by simp
  from range "1.prems"(3) have same: "getUint32 dv' i = getUint32 dv i"
    by (intro getUint32_agree [OF "1.prems"(4)]) simp
  show ?case
  proof (cases "getUint32 dv i")
    case (Inl e)
    with True "1.prems"(1) show ?thesis
      by (simp add: findEOCD_loop.simps [of dv s i])
  next
    case (Inr v)
    show ?thesis
    proof (cases "v = 0x06054b50")
      case hit: True
      with True Inr "1.prems"(1) have "r = i"
        by (simp add: findEOCD_loop_hit)
      with True Inr hit same show ?thesis
        by (simp add: findEOCD_loop_hit)
    next
      case miss: False
      have "findEOCD_loop dv s (i - 1) = Inr r"
        using "1.prems"(1) findEOCD_loop_miss [OF True Inr miss] by simp
      from "1.IH" [OF True miss this "1.prems"(2,3,4)]
      have "findEOCD_loop dv' s (i - 1) = Inr r" .
      moreover have "getUint32 dv' i = Inr v"
        using same Inr by simp
      ultimately show ?thesis
        using findEOCD_loop_miss [OF True _ miss, of dv'] by simp
    qed
  qed
qed

lemma findEOCD_agree:
  assumes "findEOCD dv = Inr r" "r \<noteq> - 1" "p + 4 \<le> r" "differ_only_at dv dv' p"
  shows "findEOCD dv' = Inr r"
proof -
  from assms(1) have "findEOCD_loop dv (max 0 (int (length dv) - 65535 - 22))
      (int (length dv) - 22) = Inr r"
    by (simp add: findEOCD_def)
  from findEOCD_loop_agree [OF this assms(2,3,4)] differ_only_at_length [OF assms(4)]
  show ?thesis
    by (simp add: findEOCD_def)
qed

lemma spec_field16_nonneg: "0 \<le> spec_field16 dv q"
  using le_value_bounds [of "take 2 (drop (nat q) dv)"] by (simp add: spec_field16_def)

lemma spec_stride_ge: "46 + spec_field16 dv (c + 28) \<le> spec_stride dv c"
  using spec_field16_nonneg [of dv "c + 30"] spec_field16_nonneg [of dv "c + 32"]
  by (simp add: spec_stride_def)

lemma spec_cursor_mono: "c \<le> spec_cursor dv c m"
proof (induction m arbitrary: c)
  case 0
  show ?case by simp
next
  case (Suc m)
  have "c \<le> c + spec_stride dv c"
    using spec_stride_ge [of dv c] spec_field16_nonneg [of dv "c + 28"] by simp
  also have "\<dots> \<le> spec_cursor dv (c + spec_stride dv c) m"
    by (rule Suc.IH)
  finally show ?case by simp
qed

lemma spec_stride_agree:
  assumes d: "differ_only_at dv dv' p" and c: "0 \<le> c" and clear: "c + 34 \<le> p \<or> p + 4 \<le> c + 28"
  shows "spec_stride dv' c = spec_stride dv c"
proof -
  have "spec_field16 dv' (c + 28) = spec_field16 dv (c + 28)"
    "spec_field16 dv' (c + 30) = spec_field16 dv (c + 30)"
    "spec_field16 dv' (c + 32) = spec_field16 dv (c + 32)"
    using c clear by (auto intro!: spec_field16_agree [OF d])
  then show ?thesis by (simp add: spec_stride_def)
qed

text \<open>After the changed bytes the walk reads the same records.\<close>

lemma parse_loop_agree_after:
  "differ_only_at dv dv' p \<Longrightarrow> p + 4 \<le> offs \<Longrightarrow>
   parse_loop decode dv n i offs fs = Inr r \<Longrightarrow>
   parse_loop decode dv' n i offs fs' = Inr (fs' @ drop (length fs) r)"
proof (induction "nat (n - i)" arbitrary: i offs fs fs' r)
  case 0
  then have stop: "\<not> i < n" by simp
  with "0.prems"(3) have "r = fs"
    by (simp add: parse_loop_stop)
  with stop show ?case
    by (simp add: parse_loop_stop)
next
  case (Suc m)
  then have i: "i < n" by simp
  from parse_loop_Inr_record [OF i Suc.prems(3)]
  obtain e where sig: "getUint32 dv offs = Inr 0x02014b50"
    and rec: "parseCentralDirectoryEntry decode dv offs = Inr e"
    by blast
  from sig have offs: "0 \<le> offs"
    by (simp add: getUint32_Inr_iff)
  have sig': "getUint32 dv' offs = Inr 0x02014b50"
    using getUint32_agree [OF Suc.prems(1), of offs] Suc.prems(2) sig by simp
  have rec': "parseCentralDirectoryEntry decode dv' offs = Inr e"
    using Suc.prems(2) by (intro parse_agree_clear [OF Suc.prems(1) rec]) simp
  have stride: "spec_stride dv' offs = spec_stride dv offs"
    using Suc.prems(2) by (intro spec_stride_agree [OF Suc.prems(1) offs]) simp
  have next_run: "parse_loop decode dv n (i + 1) (offs + spec_stride dv offs) (fs @ [e]) = Inr r"
    using Suc.prems(3) parse_loop_step [OF i sig rec, of fs] by simp
  from parse_loop_Inr [OF next_run] obtain es where r: "r = (fs @ [e]) @ es"
    by blast
  have m: "m = nat (n - (i + 1))"
    using Suc.hyps(2) by simp
  have far: "p + 4 \<le> offs + spec_stride dv offs"
    using Suc.prems(2) spec_stride_ge [of dv offs] spec_field16_nonneg [of dv "offs + 28"]
    by simp
  from Suc.hyps(1) [OF m Suc.prems(1) far next_run, of "fs' @ [e]"]
  have "parse_loop decode dv' n (i + 1) (offs + spec_stride dv offs) (fs' @ [e]) =
      Inr ((fs' @ [e]) @ drop (length (fs @ [e])) r)" .
  then have "parse_loop decode dv' n i offs fs' = Inr ((fs' @ [e]) @ drop (length (fs @ [e])) r)"
    using parse_loop_step [OF i sig' rec', of fs'] stride by simp
  with r show ?case by simp
qed

text \<open>
  Up to and including the record whose CRC field changed: the records before it are read
  as they were, the record itself differs in \<open>crc32\<close> only.
\<close>

lemma parse_loop_agree_upto:
  "differ_only_at dv dv' p \<Longrightarrow> spec_cursor dv offs m + 16 = p \<Longrightarrow> i + int m < n \<Longrightarrow>
   parse_loop decode dv n i offs fs = Inr r \<Longrightarrow>
   \<exists>c'. getUint32 dv' p = Inr c' \<and>
     parse_loop decode dv' n i offs fs =
       Inr (r[length fs + m := (r ! (length fs + m))\<lparr>crc32 := c'\<rparr>])"
proof (induction m arbitrary: i offs fs)
  case 0
  then have i: "i < n" and p: "p = offs + 16" by simp_all
  from parse_loop_Inr_record [OF i "0.prems"(4)]
  obtain e where sig: "getUint32 dv offs = Inr 0x02014b50"
    and rec: "parseCentralDirectoryEntry decode dv offs = Inr e"
    by blast
  from sig have offs: "0 \<le> offs"
    by (simp add: getUint32_Inr_iff)
  have d: "differ_only_at dv dv' (offs + 16)"
    using "0.prems"(1) p by simp
  have sig': "getUint32 dv' offs = Inr 0x02014b50"
    using getUint32_agree [OF d, of offs] sig by simp
  from parse_agree_crc [OF d rec] obtain c' where
    c': "getUint32 dv' (offs + 16) = Inr c'"
    and rec': "parseCentralDirectoryEntry decode dv' offs = Inr (e\<lparr>crc32 := c'\<rparr>)"
    by blast
  have stride: "spec_stride dv' offs = spec_stride dv offs"
    by (intro spec_stride_agree [OF d offs]) simp
  have next_run: "parse_loop decode dv n (i + 1) (offs + spec_stride dv offs) (fs @ [e]) = Inr r"
    using "0.prems"(4) parse_loop_step [OF i sig rec, of fs] by simp
  from parse_loop_Inr [OF next_run] obtain es where r: "r = (fs @ [e]) @ es"
    by blast
  have far: "offs + 16 + 4 \<le> offs + spec_stride dv offs"
    using spec_stride_ge [of dv offs] spec_field16_nonneg [of dv "offs + 28"] by simp
  from parse_loop_agree_after [OF d far next_run, of "fs @ [e\<lparr>crc32 := c'\<rparr>]"]
  have "parse_loop decode dv' n (i + 1) (offs + spec_stride dv offs) (fs @ [e\<lparr>crc32 := c'\<rparr>]) =
      Inr ((fs @ [e\<lparr>crc32 := c'\<rparr>]) @ drop (length (fs @ [e])) r)" .
  then have "parse_loop decode dv' n i offs fs =
      Inr ((fs @ [e\<lparr>crc32 := c'\<rparr>]) @ drop (length (fs @ [e])) r)"
    using parse_loop_step [OF i sig' rec', of fs] stride by simp
  moreover have "(fs @ [e\<lparr>crc32 := c'\<rparr>]) @ drop (length (fs @ [e])) r =
      r[length fs + 0 := (r ! (length fs + 0))\<lparr>crc32 := c'\<rparr>]"
    unfolding r by (simp add: list_update_append nth_append)
  ultimately show ?case
    using c' p by auto
next
  case (Suc m)
  then have i: "i < n" by simp
  from parse_loop_Inr_record [OF i Suc.prems(4)]
  obtain e where sig: "getUint32 dv offs = Inr 0x02014b50"
    and rec: "parseCentralDirectoryEntry decode dv offs = Inr e"
    by blast
  from sig have offs: "0 \<le> offs"
    by (simp add: getUint32_Inr_iff)
  have cur: "spec_cursor dv (offs + spec_stride dv offs) m + 16 = p"
    using Suc.prems(2) by simp
  have "offs + spec_stride dv offs \<le> spec_cursor dv (offs + spec_stride dv offs) m"
    by (rule spec_cursor_mono)
  with cur have before: "offs + spec_stride dv offs + 16 \<le> p"
    by simp
  with spec_stride_ge [of dv offs]
  have clear: "offs + 46 + spec_field16 dv (offs + 28) \<le> p"
    by simp
  have sig': "getUint32 dv' offs = Inr 0x02014b50"
    using getUint32_agree [OF Suc.prems(1), of offs] clear spec_field16_nonneg [of dv "offs + 28"]
      sig by simp
  have rec': "parseCentralDirectoryEntry decode dv' offs = Inr e"
    using clear by (intro parse_agree_clear [OF Suc.prems(1) rec]) simp
  have stride: "spec_stride dv' offs = spec_stride dv offs"
    using clear spec_field16_nonneg [of dv "offs + 28"]
    by (intro spec_stride_agree [OF Suc.prems(1) offs]) simp
  have next_run: "parse_loop decode dv n (i + 1) (offs + spec_stride dv offs) (fs @ [e]) = Inr r"
    using Suc.prems(4) parse_loop_step [OF i sig rec, of fs] by simp
  have "i + 1 + int m < n"
    using Suc.prems(3) by simp
  from Suc.IH [OF Suc.prems(1) cur this next_run]
  obtain c' where c': "getUint32 dv' p = Inr c'"
    and run': "parse_loop decode dv' n (i + 1) (offs + spec_stride dv offs) (fs @ [e]) =
       Inr (r[length (fs @ [e]) + m := (r ! (length (fs @ [e]) + m))\<lparr>crc32 := c'\<rparr>])"
    by blast
  from run' have "parse_loop decode dv' n i offs fs =
      Inr (r[length (fs @ [e]) + m := (r ! (length (fs @ [e]) + m))\<lparr>crc32 := c'\<rparr>])"
    using parse_loop_step [OF i sig' rec', of fs] stride by simp
  with c' show ?case by auto
qed


lemma extractFile_agree_buffers:
  assumes d: "differ_only_at (dataView this) (dataView this') p"
    and fs: "list_all2 (\<lambda>a b. filename a = filename b \<and> offset a = offset b \<and>
               compressedSize a = compressedSize b \<and>
               compressionMethod a = compressionMethod b) (files this') (files this)"
    and clear: "\<forall>fileInfo. find (\<lambda>f. filename f = name) (files this) = Some fileInfo \<longrightarrow>
               reads_clear (dataView this) fileInfo p"
  shows "fst (extractFile this' name) = fst (extractFile this name)"
proof -
  let ?R = "\<lambda>a b. filename a = filename b \<and> offset a = offset b \<and>
               compressedSize a = compressedSize b \<and>
               compressionMethod a = compressionMethod b"
  have rel: "rel_option ?R (find (\<lambda>f. filename f = name) (files this'))
               (find (\<lambda>f. filename f = name) (files this))"
    using fs by (rule find_agree) simp
  show ?thesis
  proof (cases "find (\<lambda>f. filename f = name) (files this)")
    case None
    with rel have "find (\<lambda>f. filename f = name) (files this') = None"
      by (cases "find (\<lambda>f. filename f = name) (files this')") simp_all
    with None show ?thesis
      by (simp add: extractFile_not_found)
  next
    case (Some b)
    with rel obtain a where a: "find (\<lambda>f. filename f = name) (files this') = Some a"
      and ab: "?R a b"
      by (cases "find (\<lambda>f. filename f = name) (files this')") simp_all
    from clear Some have c: "reads_clear (dataView this) b p"
      by simp
    then have hdr: "offset b + 4 \<le> p \<or> p + 4 \<le> offset b"
      and lens: "offset b + 30 \<le> p \<or> p + 4 \<le> offset b + 26"
      by (simp_all add: reads_clear_def)
    have h: "getUint32 (dataView this') (offset b) = getUint32 (dataView this) (offset b)"
      using hdr by (intro getUint32_agree [OF d]) auto
    have l1: "getUint16 (dataView this') (offset b + 26) = getUint16 (dataView this) (offset b + 26)"
      using lens by (intro getUint16_agree [OF d]) auto
    have l2: "getUint16 (dataView this') (offset b + 28) = getUint16 (dataView this) (offset b + 28)"
      using lens by (intro getUint16_agree [OF d]) auto
    have eq: "fst (extractFile this' name) =
      try_bind (getUint32 (dataView this) (offset b)) (\<lambda>signature.
       if signature \<noteq> 0x04034b50 then Inl InvalidLocalFileHeaderSignature
       else
         try_bind (getUint16 (dataView this) (offset b + 26)) (\<lambda>filenameLen.
         try_bind (getUint16 (dataView this) (offset b + 28)) (\<lambda>extraLen.
         try_bind (Uint8Array (dataView this') (offset b + 30 + filenameLen + extraLen)
                     (compressedSize b)) (\<lambda>compressedData.
           if compressionMethod b = 0 then Inr (Some (EnqueueClose compressedData))
           else if compressionMethod b = 8 then
             Inr (Some (PipeThroughDeflateRaw (EnqueueClose compressedData)))
           else Inl (UnsupportedCompressionMethod (compressionMethod b))))))"
      unfolding extractFile_found [OF a] using ab h l1 l2 by (simp cong: if_cong)
    show ?thesis
    proof (cases "getUint32 (dataView this) (offset b)")
      case (Inl e)
      then show ?thesis
        unfolding eq extractFile_found [OF Some] by simp
    next
      case sig: (Inr signature)
      show ?thesis
      proof (cases "getUint16 (dataView this) (offset b + 26)")
        case (Inl e)
        with sig show ?thesis
          unfolding eq extractFile_found [OF Some] by simp
      next
        case fl: (Inr filenameLen)
        show ?thesis
        proof (cases "getUint16 (dataView this) (offset b + 28)")
          case (Inl e)
          with sig fl show ?thesis
            unfolding eq extractFile_found [OF Some] by simp
        next
          case el: (Inr extraLen)
          from fl el have v: "filenameLen = spec_field16 (dataView this) (offset b + 26)"
            "extraLen = spec_field16 (dataView this) (offset b + 28)"
            by (simp_all add: getUint16_Inr_iff spec_field16_def)
          from c have "offset b + 30 + filenameLen + extraLen + compressedSize b \<le> p \<or>
              p + 4 \<le> offset b + 30 + filenameLen + extraLen"
            unfolding v by (simp add: reads_clear_def Let_def)
          then have "Uint8Array (dataView this') (offset b + 30 + filenameLen + extraLen)
              (compressedSize b) =
            Uint8Array (dataView this) (offset b + 30 + filenameLen + extraLen)
              (compressedSize b)"
            by (rule Uint8Array_agree [OF d])
          with sig fl el show ?thesis
            unfolding eq extractFile_found [OF Some] by simp
        qed
      qed
    qed
  qed
qed

lemma crc_update_related:
  assumes "k < length fs"
  shows "list_all2 (\<lambda>a b. filename a = filename b \<and> offset a = offset b \<and>
               compressedSize a = compressedSize b \<and>
               compressionMethod a = compressionMethod b)
           (fs[k := (fs ! k)\<lparr>crc32 := c'\<rparr>]) fs"
proof -
  have "filename (fs[k := (fs ! k)\<lparr>crc32 := c'\<rparr>] ! i) = filename (fs ! i) \<and>
      offset (fs[k := (fs ! k)\<lparr>crc32 := c'\<rparr>] ! i) = offset (fs ! i) \<and>
      compressedSize (fs[k := (fs ! k)\<lparr>crc32 := c'\<rparr>] ! i) = compressedSize (fs ! i) \<and>
      compressionMethod (fs[k := (fs ! k)\<lparr>crc32 := c'\<rparr>] ! i) = compressionMethod (fs ! i)"
    if "i < length fs" for i
    using that by (cases "i = k") simp_all
  then show ?thesis
    unfolding list_all2_conv_all_nth by simp
qed

lemma archives_differing_in_crc:
  assumes new: "new_ZipReader decode dv = Inr this"
    and eocd: "findEOCD dv = Inr eocdOffset"
    and cdo: "getUint32 dv (eocdOffset + 16) = Inr centralDirOffset"
    and k: "k < length (getFiles this)"
    and below: "spec_cursor dv centralDirOffset k + 20 \<le> eocdOffset"
    and d: "differ_only_at dv dv' (spec_cursor dv centralDirOffset k + 16)"
  shows "\<exists>this' c'. new_ZipReader decode dv' = Inr this' \<and> dataView this' = dv' \<and>
     getUint32 dv' (spec_cursor dv centralDirOffset k + 16) = Inr c' \<and>
     getFiles this' = (getFiles this)[k := (getFiles this ! k)\<lparr>crc32 := c'\<rparr>] \<and>
     (\<forall>name.
        (\<forall>fileInfo. find (\<lambda>f. filename f = name) (getFiles this) = Some fileInfo \<longrightarrow>
           reads_clear dv fileInfo (spec_cursor dv centralDirOffset k + 16)) \<longrightarrow>
        fst (extractFile this' name) = fst (extractFile this name))"
proof -
  let ?p = "spec_cursor dv centralDirOffset k + 16"
  from new obtain fs where fs: "parse decode dv = Inr fs"
    and reader: "this = \<lparr>dataView = dv, files = fs\<rparr>"
    by (auto simp: new_ZipReader_def try_bind_eq_Inr)
  from parse_Inr [OF fs] eocd cdo
  obtain numEntries where
    found: "eocdOffset \<noteq> - 1"
    and n: "getUint16 dv (eocdOffset + 10) = Inr numEntries"
    and run: "parse_loop decode dv numEntries 0 centralDirOffset [] = Inr fs"
    by auto
  from parse_loop_Inr [OF run] getUint16_bounds [OF n]
  have count: "int (length fs) = numEntries"
    by auto
  from k reader have kfs: "k < length fs"
    by (simp add: getFiles_def)
  have far: "?p + 4 \<le> eocdOffset"
    using below by simp
  have eocd': "findEOCD dv' = Inr eocdOffset"
    using eocd found far d by (rule findEOCD_agree)
  have cdo': "getUint32 dv' (eocdOffset + 16) = Inr centralDirOffset"
    using getUint32_agree [OF d, of "eocdOffset + 16"] far cdo by simp
  have n': "getUint16 dv' (eocdOffset + 10) = Inr numEntries"
    using getUint16_agree [OF d, of "eocdOffset + 10"] far n by simp
  have walk': "parse decode dv' = parse_loop decode dv' numEntries 0 centralDirOffset []"
    using eocd' found cdo' n' by (rule parse_found)
  have "0 + int k < numEntries"
    using kfs count by simp
  from parse_loop_agree_upto [OF d refl this run]
  obtain c' where c': "getUint32 dv' ?p = Inr c'"
    and run': "parse_loop decode dv' numEntries 0 centralDirOffset [] =
       Inr (fs[k := (fs ! k)\<lparr>crc32 := c'\<rparr>])"
    by auto
  let ?this' = "\<lparr>dataView = dv', files = fs[k := (fs ! k)\<lparr>crc32 := c'\<rparr>]\<rparr>"
  have new': "new_ZipReader decode dv' = Inr ?this'"
    using walk' run' by (simp add: new_ZipReader_def)
  have same: "fst (extractFile ?this' name) = fst (extractFile this name)"
    if "\<forall>fileInfo. find (\<lambda>f. filename f = name) (getFiles this) = Some fileInfo \<longrightarrow>
           reads_clear dv fileInfo ?p" for name
  proof (rule extractFile_agree_buffers [where p = ?p])
    show "differ_only_at (dataView this) (dataView ?this') ?p"
      using d reader by simp
    show "list_all2 (\<lambda>a b. filename a = filename b \<and> offset a = offset b \<and>
               compressedSize a = compressedSize b \<and>
               compressionMethod a = compressionMethod b) (files ?this') (files this)"
      using crc_update_related [OF kfs, of c'] reader by simp
    show "\<forall>fileInfo. find (\<lambda>f. filename f = name) (files this) = Some fileInfo \<longrightarrow>
               reads_clear (dataView this) fileInfo ?p"
      using that reader by (simp add: getFiles_def)
  qed
  have "getFiles ?this' = (getFiles this)[k := (getFiles this ! k)\<lparr>crc32 := c'\<rparr>]"
    using reader by (simp add: getFiles_def)
  with new' c' same show ?thesis
    by (intro exI [of _ ?this'] exI [of _ c']) simp
qed

text \<open>
  Four bytes changed below the central directory and below the trailer: construction reads
  none of them.
\<close>

lemma archives_differing_below_directory:
  assumes new: "new_ZipReader decode dv = Inr this"
    and eocd: "findEOCD dv = Inr eocdOffset"
    and cdo: "getUint32 dv (eocdOffset + 16) = Inr centralDirOffset"
    and below_directory: "p + 4 \<le> centralDirOffset"
    and below_trailer: "p + 4 \<le> eocdOffset"
    and d: "differ_only_at dv dv' p"
  shows "\<exists>this'. new_ZipReader decode dv' = Inr this' \<and> dataView this' = dv' \<and>
     getFiles this' = getFiles this \<and>
     (\<forall>name.
        (\<forall>fileInfo. find (\<lambda>f. filename f = name) (getFiles this) = Some fileInfo \<longrightarrow>
           reads_clear dv fileInfo p) \<longrightarrow>
        fst (extractFile this' name) = fst (extractFile this name))"
proof -
  from new obtain fs where fs: "parse decode dv = Inr fs"
    and reader: "this = \<lparr>dataView = dv, files = fs\<rparr>"
    by (auto simp: new_ZipReader_def try_bind_eq_Inr)
  from parse_Inr [OF fs] eocd cdo
  obtain numEntries where
    found: "eocdOffset \<noteq> - 1"
    and n: "getUint16 dv (eocdOffset + 10) = Inr numEntries"
    and run: "parse_loop decode dv numEntries 0 centralDirOffset [] = Inr fs"
    by auto
  have eocd': "findEOCD dv' = Inr eocdOffset"
    using eocd found below_trailer d by (rule findEOCD_agree)
  have cdo': "getUint32 dv' (eocdOffset + 16) = Inr centralDirOffset"
    using getUint32_agree [OF d, of "eocdOffset + 16"] below_trailer cdo by simp
  have n': "getUint16 dv' (eocdOffset + 10) = Inr numEntries"
    using getUint16_agree [OF d, of "eocdOffset + 10"] below_trailer n by simp
  have walk': "parse decode dv' = parse_loop decode dv' numEntries 0 centralDirOffset []"
    using eocd' found cdo' n' by (rule parse_found)
  from parse_loop_agree_after [OF d below_directory run, of "[]"]
  have run': "parse_loop decode dv' numEntries 0 centralDirOffset [] = Inr fs"
    by simp
  let ?this' = "\<lparr>dataView = dv', files = fs\<rparr>"
  have new': "new_ZipReader decode dv' = Inr ?this'"
    using walk' run' by (simp add: new_ZipReader_def)
  have same: "fst (extractFile ?this' name) = fst (extractFile this name)"
    if "\<forall>fileInfo. find (\<lambda>f. filename f = name) (getFiles this) = Some fileInfo \<longrightarrow>
           reads_clear dv fileInfo p" for name
  proof (rule extractFile_agree_buffers [where p = p])
    show "differ_only_at (dataView this) (dataView ?this') p"
      using d reader by simp
    show "list_all2 (\<lambda>a b. filename a = filename b \<and> offset a = offset b \<and>
               compressedSize a = compressedSize b \<and>
               compressionMethod a = compressionMethod b) (files ?this') (files this)"
      using reader by (simp add: list_all2_same)
    show "\<forall>fileInfo. find (\<lambda>f. filename f = name) (files this) = Some fileInfo \<longrightarrow>
               reads_clear (dataView this) fileInfo p"
      using that reader by (simp add: getFiles_def)
  qed
  have "getFiles ?this' = getFiles this"
    using reader by (simp add: getFiles_def)
  with new' same show ?thesis
    by (intro exI [of _ ?this']) simp
qed

text \<open>Extraction of an entry reads nothing of the CRC field of its own local header.\<close>

lemma local_crc_reads_clear: "reads_clear dv fileInfo (offset fileInfo + 14)"
  using spec_field16_nonneg [of dv "offset fileInfo + 26"]
    spec_field16_nonneg [of dv "offset fileInfo + 28"]
  by (simp add: reads_clear_def Let_def)

subsection \<open>The example archive, evaluated\<close>

lemma example_findEOCD: "findEOCD example_zip = Inr 240"
  by code_simp

lemma example_length: "int (length example_zip) = 264"
  by code_simp

lemma example_sig_240: "getUint32 example_zip 240 = Inr 0x06054b50"
  by code_simp

lemma example_new_ZipReader: "new_ZipReader ascii example_zip = Inr example_reader"
  by code_simp

lemma example_extract_a:
  "extractFile example_reader ''a'' = (Inr (Some (EnqueueClose [0x68, 0x69])), example_reader)"
  by code_simp

lemma example_extract_b:
  "extractFile example_reader ''b'' = (Inl (UnsupportedCompressionMethod 12), example_reader)"
  by code_simp

lemma example_extract_only_file2:
  "extractFile (example_reader\<lparr>files := [example_file2]\<rparr>) ''a'' =
   (Inr (Some (PipeThroughDeflateRaw (EnqueueClose [0x03, 0x00]))), example_reader\<lparr>files := [example_file2]\<rparr>)"
  by code_simp

lemma example_parse_entry1: "parseCentralDirectoryEntry ascii example_zip 99 = Inr example_file1"
  by code_simp

lemma example_date_time_fields:
  "getUint16 example_zip (99 + 14) = Inr 0x5b3e \<and> getUint16 example_zip (99 + 12) = Inr 0x80b8"
  by code_simp

lemma example_bits:
  "take_bit 7 (drop_bit 9 (0x5b3e::int)) + 1980 = 2025 \<and>
   take_bit 4 (drop_bit 5 (0x5b3e::int)) = 9 \<and>
   take_bit 5 (0x5b3e::int) = 30 \<and>
   take_bit 5 (drop_bit 11 (0x80b8::int)) = 16 \<and>
   take_bit 6 (drop_bit 5 (0x80b8::int)) = 5 \<and>
   2 * take_bit 5 (0x80b8::int) = 48"
  by code_simp

lemma example_find_a:
  "find (\<lambda>f. filename f = ''a'') (files example_reader) = Some example_file1"
  by code_simp

lemma example_find_b:
  "find (\<lambda>f. filename f = ''b'') (files example_reader) = Some example_file3"
  by code_simp

lemma example_extract_zz:
  "extractFile example_reader ''zz'' = (Inr None, example_reader)"
  by code_simp

lemma example_header_a:
  "getUint32 (dataView example_reader) (offset example_file1) = Inr 0x04034b50 \<and>
   getUint16 (dataView example_reader) (offset example_file1 + 26) = Inr 1 \<and>
   getUint16 (dataView example_reader) (offset example_file1 + 28) = Inr 1 \<and>
   Uint8Array (dataView example_reader) (offset example_file1 + 30 + 1 + 1)
     (compressedSize example_file1) = Inr [0x68, 0x69]"
  by code_simp

lemma example_header_b:
  "getUint32 (dataView example_reader) (offset example_file3) = Inr 0x04034b50 \<and>
   getUint16 (dataView example_reader) (offset example_file3 + 26) = Inr 1 \<and>
   getUint16 (dataView example_reader) (offset example_file3 + 28) = Inr 0 \<and>
   Uint8Array (dataView example_reader) (offset example_file3 + 30 + 1 + 0)
     (compressedSize example_file3) = Inr [0x07]"
  by code_simp

lemma example_find_moved:
  "find (\<lambda>f. filename f = ''a'') (files (example_reader\<lparr>files := [example_file1\<lparr>offset := 1\<rparr>]\<rparr>)) =
     Some (example_file1\<lparr>offset := 1\<rparr>)"
  by code_simp

lemma example_header_moved:
  "getUint32 (dataView (example_reader\<lparr>files := [example_file1\<lparr>offset := 1\<rparr>]\<rparr>))
     (offset (example_file1\<lparr>offset := 1\<rparr>)) = Inr 0x1404034b"
  by code_simp

lemma example_find_file2:
  "find (\<lambda>f. filename f = ''a'') (files (example_reader\<lparr>files := [example_file2]\<rparr>)) =
     Some example_file2"
  by code_simp

lemma example_header_file2:
  "getUint32 (dataView (example_reader\<lparr>files := [example_file2]\<rparr>)) (offset example_file2) =
     Inr 0x04034b50 \<and>
   getUint16 (dataView (example_reader\<lparr>files := [example_file2]\<rparr>)) (offset example_file2 + 26) =
     Inr 1 \<and>
   getUint16 (dataView (example_reader\<lparr>files := [example_file2]\<rparr>)) (offset example_file2 + 28) =
     Inr 0 \<and>
   Uint8Array (dataView (example_reader\<lparr>files := [example_file2]\<rparr>))
     (offset example_file2 + 30 + 1 + 0) (compressedSize example_file2) = Inr [0x03, 0x00]"
  by code_simp

lemma example_methods:
  "compressionMethod example_file1 = 0 \<and> compressionMethod example_file2 = 8 \<and>
   compressionMethod example_file3 = 12"
  by (simp add: example_file1_def example_file2_def example_file3_def)

lemma example_file1_fields:
  "compressionMethod example_file1 = 0 \<and> compressedSize example_file1 = 2 \<and>
   uncompressedSize example_file1 = 5 \<and> crc32 example_file1 = 0x11223344 \<and>
   encrypted example_file1 \<and> filename example_file1 = ''a''"
  by (simp add: example_file1_def)

lemma example_getFiles0: "getFiles example_reader ! 0 = example_file1"
  by (simp add: getFiles_def example_reader_def)

lemma example_crc_field: "getUint32 example_zip (99 + 16) = Inr 0x11223344"
  by code_simp

lemma example_flag_field: "getUint16 example_zip (99 + 8) = Inr 1"
  by code_simp

lemma example_trailer_fields:
  "getUint32 example_zip (240 + 16) = Inr 99 \<and> getUint16 example_zip (240 + 10) = Inr 3"
  by code_simp

lemma example_damaged_trailer:
  "findEOCD (example_zip[146 := 0x51]) = Inr 240 \<and>
   getUint32 (example_zip[146 := 0x51]) (240 + 16) = Inr 99 \<and>
   getUint16 (example_zip[146 := 0x51]) (240 + 10) = Inr 3"
  by code_simp

lemma example_damaged_cursor:
  "spec_cursor (example_zip[146 := 0x51]) 99 0 = 99 \<and>
   spec_cursor (example_zip[146 := 0x51]) 99 1 = 146"
  by code_simp

lemma example_damaged_records:
  "getUint32 (example_zip[146 := 0x51]) 99 = Inr 0x02014b50 \<and>
   parseCentralDirectoryEntry ascii (example_zip[146 := 0x51]) 99 = Inr example_file1 \<and>
   getUint32 (example_zip[146 := 0x51]) 146 = Inr 0x02014b51"
  by code_simp

lemma example_days_in_month: "days_in_month 2025 8 = 30"
  by code_simp

lemma example_record_fits:
  "(0::int) \<le> 99 \<and> 99 + 46 + spec_field16 example_zip (99 + 28) \<le> int (length example_zip)"
  by code_simp

lemma zero_date_new_ZipReader: "new_ZipReader ascii zero_date_zip = Inr zero_date_reader"
  by code_simp

lemma zero_date_fields:
  "getUint16 zero_date_zip (99 + 14) = Inr 0 \<and> getUint16 zero_date_zip (99 + 12) = Inr 0"
  by code_simp

lemma zero_date_getters:
  "getFullYear utc_zone (lastModified (getFiles zero_date_reader ! 0)) = 1979 \<and>
   getMonth utc_zone (lastModified (getFiles zero_date_reader ! 0)) = 10 \<and>
   getDate utc_zone (lastModified (getFiles zero_date_reader ! 0)) = 30"
  by code_simp

lemma example_payload_a:
  "take (nat (compressedSize example_file1))
     (drop (nat (offset example_file1 + 30 + 1 + 1)) (dataView example_reader)) = [0x68, 0x69] \<and>
   0 \<le> compressedSize example_file1 \<and>
   offset example_file1 + 30 + 1 + 1 + compressedSize example_file1 \<le>
     int (length (dataView example_reader)) \<and>
   compressionMethod example_file1 = 0"
  by code_simp

lemma example_directory_sound:
  "(getUint32 example_zip (spec_cursor example_zip 99 0) = Inr 0x02014b50 \<and>
    spec_cursor example_zip 99 0 + 46 + spec_field16 example_zip (spec_cursor example_zip 99 0 + 28)
      \<le> int (length example_zip)) \<and>
   (getUint32 example_zip (spec_cursor example_zip 99 1) = Inr 0x02014b50 \<and>
    spec_cursor example_zip 99 1 + 46 + spec_field16 example_zip (spec_cursor example_zip 99 1 + 28)
      \<le> int (length example_zip)) \<and>
   (getUint32 example_zip (spec_cursor example_zip 99 2) = Inr 0x02014b50 \<and>
    spec_cursor example_zip 99 2 + 46 + spec_field16 example_zip (spec_cursor example_zip 99 2 + 28)
      \<le> int (length example_zip))"
  by code_simp

lemma example_directory_sound_all:
  "\<forall>k. int k < 3 \<longrightarrow>
     getUint32 example_zip (spec_cursor example_zip 99 k) = Inr 0x02014b50 \<and>
     spec_cursor example_zip 99 k + 46 + spec_field16 example_zip (spec_cursor example_zip 99 k + 28)
       \<le> int (length example_zip)"
proof (intro allI impI)
  fix k :: nat
  assume "int k < 3"
  then consider "k = 0" | "k = 1" | "k = 2"
    by linarith
  then show "getUint32 example_zip (spec_cursor example_zip 99 k) = Inr 0x02014b50 \<and>
     spec_cursor example_zip 99 k + 46 + spec_field16 example_zip (spec_cursor example_zip 99 k + 28)
       \<le> int (length example_zip)"
  proof cases
    case 1
    with example_directory_sound show ?thesis by blast
  next
    case 2
    with example_directory_sound show ?thesis by blast
  next
    case 3
    with example_directory_sound show ?thesis by blast
  qed
qed

lemma overlap_built:
  "new_ZipReader ascii overlap_zip = Inr overlap_reader \<and>
   new_ZipReader ascii (overlap_zip[47 := 0xff]) = Inr overlap_reader'"
  by code_simp

lemma overlap_extracted:
  "fst (extractFile overlap_reader ''a'') =
     Inr (Some (EnqueueClose [0x50, 0x4b, 0x01, 0x02, 0x1e, 0x03, 0x14, 0x00, 0x00, 0x00, 0x00, 0x00, 0xb8, 0x80, 0x3e, 0x5b, 0x00, 0x00, 0x00, 0x00])) \<and>
   fst (extractFile overlap_reader' ''a'') =
     Inr (Some (EnqueueClose [0x50, 0x4b, 0x01, 0x02, 0x1e, 0x03, 0x14, 0x00, 0x00, 0x00, 0x00, 0x00, 0xb8, 0x80, 0x3e, 0x5b, 0xff, 0x00, 0x00, 0x00]))"
  by code_simp

lemma overlap_crc_fields:
  "getUint32 overlap_zip (31 + 16) = Inr 0 \<and>
   getUint32 (overlap_zip[47 := 0xff]) (31 + 16) = Inr 0xff"
  by code_simp

lemma example_changed_crc:
  "new_ZipReader ascii (example_zip[115 := 0xef]) =
     Inr \<lparr>dataView = example_zip[115 := 0xef],
          files = [example_file1\<lparr>crc32 := 0x112233ef\<rparr>, example_file2, example_file3]\<rparr>"
  by code_simp

lemma example_differ_central:
  "differ_only_at example_zip (example_zip[115 := 0xef]) (99 + 16)"
  by code_simp

lemma example_differ_local:
  "differ_only_at example_zip (example_zip[14 := 0xef]) (0 + 14)"
  by code_simp

lemma example_local_crc:
  "getUint32 example_zip (0 + 14) = Inr 0x11223344 \<and>
   getUint32 (example_zip[14 := 0xef]) (0 + 14) = Inr 0x112233ef"
  by code_simp

lemma example_reads_clear: "reads_clear example_zip example_file1 (99 + 16)"
  by code_simp

section \<open>Claims\<close>

text \<open>
  C1. For an entry that the lookup finds, extraction reads the local file header at the
  entry's \<open>offset\<close> (the local-header offset of the central directory) before anything
  else: when the four bytes there cannot be read the call fails with that error, and it
  fails with the \<open>invalid local file header signature\<close> error exactly when they can be
  read and are not \<open>0x04034B50\<close>. With the signature right and the file-name length and
  extra-field length read from the local header at +26 and +28, the payload starts at
  \<open>offset + 30 + filenameLen + extraLen\<close>: the call fails with a range error when the
  \<open>compressedSize\<close> bytes from there do not fit in the buffer, and for methods 0 and 8 it
  returns the stream whose chunk is exactly those bytes. Conversely every stream returned
  carries that slice, of \<open>compressedSize\<close> bytes, no more and no fewer.
\<close>

theorem extractFile_local_header:
  "find (\<lambda>f. filename f = name) (files this) = Some fileInfo \<Longrightarrow>
   ((fst (extractFile this name) = Inl InvalidLocalFileHeaderSignature) =
      (\<exists>signature. getUint32 (dataView this) (offset fileInfo) = Inr signature \<and>
         signature \<noteq> 0x04034b50)) \<and>
   (\<forall>s. fst (extractFile this name) = Inr (Some s) \<longrightarrow>
      getUint32 (dataView this) (offset fileInfo) = Inr 0x04034b50 \<and>
      (\<exists>filenameLen extraLen compressedData.
         getUint16 (dataView this) (offset fileInfo + 26) = Inr filenameLen \<and>
         getUint16 (dataView this) (offset fileInfo + 28) = Inr extraLen \<and>
         compressedData =
           take (nat (compressedSize fileInfo))
             (drop (nat (offset fileInfo + 30 + filenameLen + extraLen)) (dataView this)) \<and>
         int (length compressedData) = compressedSize fileInfo \<and>
         (s = EnqueueClose compressedData \<or>
          s = PipeThroughDeflateRaw (EnqueueClose compressedData)))) \<and>
   (\<forall>e. getUint32 (dataView this) (offset fileInfo) = Inl e \<longrightarrow>
      fst (extractFile this name) = Inl e) \<and>
   (\<forall>filenameLen extraLen.
      getUint32 (dataView this) (offset fileInfo) = Inr 0x04034b50 \<and>
      getUint16 (dataView this) (offset fileInfo + 26) = Inr filenameLen \<and>
      getUint16 (dataView this) (offset fileInfo + 28) = Inr extraLen \<longrightarrow>
      (compressedSize fileInfo < 0 \<or>
       int (length (dataView this)) <
         offset fileInfo + 30 + filenameLen + extraLen + compressedSize fileInfo \<longrightarrow>
       fst (extractFile this name) = Inl RangeError) \<and>
      (0 \<le> compressedSize fileInfo \<and>
       offset fileInfo + 30 + filenameLen + extraLen + compressedSize fileInfo \<le>
         int (length (dataView this)) \<and>
       (compressionMethod fileInfo = 0 \<or> compressionMethod fileInfo = 8) \<longrightarrow>
       fst (extractFile this name) =
         Inr (Some
           (if compressionMethod fileInfo = 0 then
              EnqueueClose (take (nat (compressedSize fileInfo))
                (drop (nat (offset fileInfo + 30 + filenameLen + extraLen)) (dataView this)))
            else
              PipeThroughDeflateRaw (EnqueueClose (take (nat (compressedSize fileInfo))
                (drop (nat (offset fileInfo + 30 + filenameLen + extraLen))
                   (dataView this))))))))"
proof (intro conjI allI impI)
  assume hit: "find (\<lambda>f. filename f = name) (files this) = Some fileInfo"
  show "(fst (extractFile this name) = Inl InvalidLocalFileHeaderSignature) =
      (\<exists>signature. getUint32 (dataView this) (offset fileInfo) = Inr signature \<and>
         signature \<noteq> 0x04034b50)"
    by (auto simp: extractFile_found [OF hit] try_bind_eq_Inl getUint32_def getUint16_def
        Uint8Array_def split: if_splits)
next
  fix s
  assume hit: "find (\<lambda>f. filename f = name) (files this) = Some fileInfo"
    and ok: "fst (extractFile this name) = Inr (Some s)"
  from ok obtain signature filenameLen extraLen compressedData where
    sig: "getUint32 (dataView this) (offset fileInfo) = Inr signature" "signature = 0x04034b50"
    and fl: "getUint16 (dataView this) (offset fileInfo + 26) = Inr filenameLen"
    and el: "getUint16 (dataView this) (offset fileInfo + 28) = Inr extraLen"
    and cd: "Uint8Array (dataView this) (offset fileInfo + 30 + filenameLen + extraLen)
               (compressedSize fileInfo) = Inr compressedData"
    and s: "s = EnqueueClose compressedData \<or> s = PipeThroughDeflateRaw (EnqueueClose compressedData)"
    by (auto simp: extractFile_found [OF hit] try_bind_eq_Inr split: if_splits)
  from sig show "getUint32 (dataView this) (offset fileInfo) = Inr 0x04034b50"
    by simp
  from cd have bytes: "compressedData =
      take (nat (compressedSize fileInfo))
        (drop (nat (offset fileInfo + 30 + filenameLen + extraLen)) (dataView this))"
    by (simp add: Uint8Array_Inr_iff)
  from cd have len: "int (length compressedData) = compressedSize fileInfo"
    by (rule Uint8Array_length)
  from fl el bytes len s
  show "\<exists>filenameLen extraLen compressedData.
         getUint16 (dataView this) (offset fileInfo + 26) = Inr filenameLen \<and>
         getUint16 (dataView this) (offset fileInfo + 28) = Inr extraLen \<and>
         compressedData =
           take (nat (compressedSize fileInfo))
             (drop (nat (offset fileInfo + 30 + filenameLen + extraLen)) (dataView this)) \<and>
         int (length compressedData) = compressedSize fileInfo \<and>
         (s = EnqueueClose compressedData \<or>
          s = PipeThroughDeflateRaw (EnqueueClose compressedData))"
    by blast
next
  fix e
  assume hit: "find (\<lambda>f. filename f = name) (files this) = Some fileInfo"
    and "getUint32 (dataView this) (offset fileInfo) = Inl e"
  then show "fst (extractFile this name) = Inl e"
    by (simp add: extractFile_found [OF hit])
next
  fix filenameLen extraLen
  assume hit: "find (\<lambda>f. filename f = name) (files this) = Some fileInfo"
    and hdr: "getUint32 (dataView this) (offset fileInfo) = Inr 0x04034b50 \<and>
      getUint16 (dataView this) (offset fileInfo + 26) = Inr filenameLen \<and>
      getUint16 (dataView this) (offset fileInfo + 28) = Inr extraLen"
    and out: "compressedSize fileInfo < 0 \<or>
       int (length (dataView this)) <
         offset fileInfo + 30 + filenameLen + extraLen + compressedSize fileInfo"
  from out have "Uint8Array (dataView this) (offset fileInfo + 30 + filenameLen + extraLen)
      (compressedSize fileInfo) = Inl RangeError"
    by (auto simp: Uint8Array_def)
  with hdr show "fst (extractFile this name) = Inl RangeError"
    by (simp add: extractFile_found [OF hit])
next
  fix filenameLen extraLen
  assume hit: "find (\<lambda>f. filename f = name) (files this) = Some fileInfo"
    and hdr: "getUint32 (dataView this) (offset fileInfo) = Inr 0x04034b50 \<and>
      getUint16 (dataView this) (offset fileInfo + 26) = Inr filenameLen \<and>
      getUint16 (dataView this) (offset fileInfo + 28) = Inr extraLen"
    and fits: "0 \<le> compressedSize fileInfo \<and>
       offset fileInfo + 30 + filenameLen + extraLen + compressedSize fileInfo \<le>
         int (length (dataView this)) \<and>
       (compressionMethod fileInfo = 0 \<or> compressionMethod fileInfo = 8)"
  from hdr have "0 \<le> offset fileInfo" "0 \<le> filenameLen" "0 \<le> extraLen"
    using getUint16_bounds [of "dataView this" "offset fileInfo + 26" filenameLen]
      getUint16_bounds [of "dataView this" "offset fileInfo + 28" extraLen]
    by (simp_all add: getUint32_Inr_iff)
  with fits have "Uint8Array (dataView this) (offset fileInfo + 30 + filenameLen + extraLen)
      (compressedSize fileInfo) =
      Inr (take (nat (compressedSize fileInfo))
        (drop (nat (offset fileInfo + 30 + filenameLen + extraLen)) (dataView this)))"
    by (simp add: Uint8Array_def)
  with hdr fits show "fst (extractFile this name) =
         Inr (Some
           (if compressionMethod fileInfo = 0 then
              EnqueueClose (take (nat (compressedSize fileInfo))
                (drop (nat (offset fileInfo + 30 + filenameLen + extraLen)) (dataView this)))
            else
              PipeThroughDeflateRaw (EnqueueClose (take (nat (compressedSize fileInfo))
                (drop (nat (offset fileInfo + 30 + filenameLen + extraLen))
                   (dataView this))))))"
    by (auto simp: extractFile_found [OF hit])
qed

theorem extractFile_local_header_witness:
  "find (\<lambda>f. filename f = ''a'') (files example_reader) = Some example_file1 \<and>
   fst (extractFile example_reader ''a'') = Inr (Some (EnqueueClose [0x68, 0x69])) \<and>
   getUint32 (dataView example_reader) (offset example_file1) = Inr 0x04034b50 \<and>
   (\<exists>filenameLen extraLen compressedData.
      getUint16 (dataView example_reader) (offset example_file1 + 26) = Inr filenameLen \<and>
      getUint16 (dataView example_reader) (offset example_file1 + 28) = Inr extraLen \<and>
      compressedData =
        take (nat (compressedSize example_file1))
          (drop (nat (offset example_file1 + 30 + filenameLen + extraLen))
             (dataView example_reader)) \<and>
      int (length compressedData) = compressedSize example_file1 \<and>
      (EnqueueClose [0x68, 0x69] = EnqueueClose compressedData \<or>
       EnqueueClose [0x68, 0x69] = PipeThroughDeflateRaw (EnqueueClose compressedData))) \<and>
   fst (extractFile (example_reader\<lparr>files := [example_file1\<lparr>offset := 1\<rparr>]\<rparr>) ''a'') =
     Inl InvalidLocalFileHeaderSignature"
proof -
  have hdr: "getUint32 (dataView example_reader) (offset example_file1) = Inr 0x04034b50 \<and>
      getUint16 (dataView example_reader) (offset example_file1 + 26) = Inr 1 \<and>
      getUint16 (dataView example_reader) (offset example_file1 + 28) = Inr 1"
    using example_header_a by blast
  from extractFile_local_header [OF example_find_a] hdr example_payload_a
  have "fst (extractFile example_reader ''a'') =
         Inr (Some
           (if compressionMethod example_file1 = 0 then
              EnqueueClose (take (nat (compressedSize example_file1))
                (drop (nat (offset example_file1 + 30 + 1 + 1)) (dataView example_reader)))
            else
              PipeThroughDeflateRaw (EnqueueClose (take (nat (compressedSize example_file1))
                (drop (nat (offset example_file1 + 30 + 1 + 1))
                   (dataView example_reader))))))"
    by blast
  with example_payload_a
  have ok: "fst (extractFile example_reader ''a'') = Inr (Some (EnqueueClose [0x68, 0x69]))"
    by simp
  have wrong: "\<exists>signature.
      getUint32 (dataView (example_reader\<lparr>files := [example_file1\<lparr>offset := 1\<rparr>]\<rparr>))
        (offset (example_file1\<lparr>offset := 1\<rparr>)) = Inr signature \<and> signature \<noteq> 0x04034b50"
    by (rule exI [of _ "0x1404034b"], rule conjI, rule example_header_moved) simp
  from extractFile_local_header [OF example_find_moved] wrong
  have bad: "fst (extractFile (example_reader\<lparr>files := [example_file1\<lparr>offset := 1\<rparr>]\<rparr>) ''a'') =
     Inl InvalidLocalFileHeaderSignature"
    by blast
  from extractFile_local_header [OF example_find_a] ok example_find_a bad
  show ?thesis
    by blast
qed

text \<open>
  C2. The walk of the central directory, in three parts.
  When the trailer is found and, at each of the cursors the specification's walk reaches
  before the trailer's entry count is exhausted (start at the central-directory offset,
  advance by 46 plus the three lengths of each record), the signature \<open>0x02014B50\<close> stands
  and the record with its file name lies within the buffer, construction succeeds and
  \<^verbatim>\<open>getFiles\<close> has exactly as many entries as the trailer declares, the \<open>k\<close>-th being
  the record parsed at the \<open>k\<close>-th cursor.
  Whenever construction succeeds, the trailer was found, the offset and the count were read
  from it (at +16 and +10), the length of \<^verbatim>\<open>getFiles\<close> is the count, and the signature
  stands at every cursor.
  When, before the count is exhausted, some cursor holds four readable bytes that are not the
  signature, all the records before it being sound, construction fails with the
  \<open>invalid central directory signature\<close> error: nothing is skipped and no later record
  is looked for.
\<close>

theorem parse_walks_central_directory:
  "(\<forall>this :: 's ZipReader. new_ZipReader decode dv = Inr this \<longrightarrow>
      dataView this = dv \<and>
      (\<exists>eocdOffset centralDirOffset numEntries.
         findEOCD dv = Inr eocdOffset \<and> eocdOffset \<noteq> - 1 \<and>
         getUint32 dv (eocdOffset + 16) = Inr centralDirOffset \<and>
         getUint16 dv (eocdOffset + 10) = Inr numEntries \<and>
         int (length (getFiles this)) = numEntries \<and>
         (\<forall>k<length (getFiles this).
            getUint32 dv (spec_cursor dv centralDirOffset k) = Inr 0x02014b50 \<and>
            parseCentralDirectoryEntry decode dv (spec_cursor dv centralDirOffset k) =
              Inr (getFiles this ! k)))) \<and>
   (\<forall>eocdOffset centralDirOffset numEntries k signature.
      findEOCD dv = Inr eocdOffset \<and> eocdOffset \<noteq> - 1 \<and>
      getUint32 dv (eocdOffset + 16) = Inr centralDirOffset \<and>
      getUint16 dv (eocdOffset + 10) = Inr numEntries \<and>
      int k < numEntries \<and>
      (\<forall>j<k. getUint32 dv (spec_cursor dv centralDirOffset j) = Inr 0x02014b50 \<and>
         (\<exists>e. parseCentralDirectoryEntry decode dv (spec_cursor dv centralDirOffset j) = Inr e)) \<and>
      getUint32 dv (spec_cursor dv centralDirOffset k) = Inr signature \<and>
      signature \<noteq> 0x02014b50 \<longrightarrow>
      new_ZipReader decode dv = Inl InvalidCentralDirectorySignature) \<and>
   (\<forall>eocdOffset centralDirOffset numEntries.
      findEOCD dv = Inr eocdOffset \<and> eocdOffset \<noteq> - 1 \<and>
      getUint32 dv (eocdOffset + 16) = Inr centralDirOffset \<and>
      getUint16 dv (eocdOffset + 10) = Inr numEntries \<and>
      (\<forall>k. int k < numEntries \<longrightarrow>
         getUint32 dv (spec_cursor dv centralDirOffset k) = Inr 0x02014b50 \<and>
         spec_cursor dv centralDirOffset k + 46 +
           spec_field16 dv (spec_cursor dv centralDirOffset k + 28) \<le> int (length dv)) \<longrightarrow>
      (\<exists>this :: 's ZipReader. new_ZipReader decode dv = Inr this \<and> dataView this = dv \<and>
         int (length (getFiles this)) = numEntries \<and>
         (\<forall>k<length (getFiles this).
            parseCentralDirectoryEntry decode dv (spec_cursor dv centralDirOffset k) =
              Inr (getFiles this ! k))))"
proof (intro conjI allI impI)
  fix this :: "'s ZipReader"
  assume new: "new_ZipReader decode dv = Inr this"
  then obtain fs where fs: "parse decode dv = Inr fs"
    and reader: "this = \<lparr>dataView = dv, files = fs\<rparr>"
    by (auto simp: new_ZipReader_def try_bind_eq_Inr)
  from reader show "dataView this = dv"
    by simp
  from parse_Inr [OF fs]
  obtain eocdOffset centralDirOffset numEntries where
    e: "findEOCD dv = Inr eocdOffset" "eocdOffset \<noteq> - 1"
    and c: "getUint32 dv (eocdOffset + 16) = Inr centralDirOffset"
    and n: "getUint16 dv (eocdOffset + 10) = Inr numEntries"
    and run: "parse_loop decode dv numEntries 0 centralDirOffset [] = Inr fs"
    by blast
  from parse_loop_Inr [OF run]
  have len: "int (length fs) = max 0 (numEntries - 0)"
    and recs: "\<forall>k<length fs.
        getUint32 dv (spec_cursor dv centralDirOffset k) = Inr 0x02014b50 \<and>
        parseCentralDirectoryEntry decode dv (spec_cursor dv centralDirOffset k) = Inr (fs ! k)"
    by auto
  from getUint16_bounds [OF n] len have count: "int (length fs) = numEntries"
    by simp
  from e c n recs reader count
  show "\<exists>eocdOffset centralDirOffset numEntries.
         findEOCD dv = Inr eocdOffset \<and> eocdOffset \<noteq> - 1 \<and>
         getUint32 dv (eocdOffset + 16) = Inr centralDirOffset \<and>
         getUint16 dv (eocdOffset + 10) = Inr numEntries \<and>
         int (length (getFiles this)) = numEntries \<and>
         (\<forall>k<length (getFiles this).
            getUint32 dv (spec_cursor dv centralDirOffset k) = Inr 0x02014b50 \<and>
            parseCentralDirectoryEntry decode dv (spec_cursor dv centralDirOffset k) =
              Inr (getFiles this ! k))"
    by (simp add: getFiles_def)
next
  fix eocdOffset centralDirOffset numEntries :: int and k :: nat and signature :: int
  assume a: "findEOCD dv = Inr eocdOffset \<and> eocdOffset \<noteq> - 1 \<and>
      getUint32 dv (eocdOffset + 16) = Inr centralDirOffset \<and>
      getUint16 dv (eocdOffset + 10) = Inr numEntries \<and>
      int k < numEntries \<and>
      (\<forall>j<k. getUint32 dv (spec_cursor dv centralDirOffset j) = Inr 0x02014b50 \<and>
         (\<exists>e. parseCentralDirectoryEntry decode dv (spec_cursor dv centralDirOffset j) = Inr e)) \<and>
      getUint32 dv (spec_cursor dv centralDirOffset k) = Inr signature \<and>
      signature \<noteq> 0x02014b50"
  then have "findEOCD dv = Inr eocdOffset" and "eocdOffset \<noteq> - 1"
    and "getUint32 dv (eocdOffset + 16) = Inr centralDirOffset"
    and "getUint16 dv (eocdOffset + 10) = Inr numEntries"
    by blast+
  then have walk: "parse decode dv = parse_loop decode dv numEntries 0 centralDirOffset []"
    by (rule parse_found)
  from a have "0 + int k < numEntries"
    by simp
  moreover from a have "\<forall>j<k. getUint32 dv (spec_cursor dv centralDirOffset j) = Inr 0x02014b50 \<and>
         (\<exists>e. parseCentralDirectoryEntry decode dv (spec_cursor dv centralDirOffset j) = Inr e)"
    by blast
  moreover from a have "getUint32 dv (spec_cursor dv centralDirOffset k) = Inr signature"
    and "signature \<noteq> 0x02014b50"
    by simp_all
  ultimately have "parse_loop decode dv numEntries 0 centralDirOffset [] =
      Inl InvalidCentralDirectorySignature"
    by (rule parse_loop_mismatch)
  with walk show "new_ZipReader decode dv = Inl InvalidCentralDirectorySignature"
    by (simp add: new_ZipReader_def)
next
  fix eocdOffset centralDirOffset numEntries :: int
  assume a: "findEOCD dv = Inr eocdOffset \<and> eocdOffset \<noteq> - 1 \<and>
      getUint32 dv (eocdOffset + 16) = Inr centralDirOffset \<and>
      getUint16 dv (eocdOffset + 10) = Inr numEntries \<and>
      (\<forall>k. int k < numEntries \<longrightarrow>
         getUint32 dv (spec_cursor dv centralDirOffset k) = Inr 0x02014b50 \<and>
         spec_cursor dv centralDirOffset k + 46 +
           spec_field16 dv (spec_cursor dv centralDirOffset k + 28) \<le> int (length dv))"
  then have found: "findEOCD dv = Inr eocdOffset" "eocdOffset \<noteq> - 1"
    "getUint32 dv (eocdOffset + 16) = Inr centralDirOffset"
    "getUint16 dv (eocdOffset + 10) = Inr numEntries"
    by blast+
  then have walk: "parse decode dv = parse_loop decode dv numEntries 0 centralDirOffset []"
    by (rule parse_found)
  from a have "\<forall>k. int k < numEntries - 0 \<longrightarrow>
         getUint32 dv (spec_cursor dv centralDirOffset k) = Inr 0x02014b50 \<and>
         spec_cursor dv centralDirOffset k + 46 +
           spec_field16 dv (spec_cursor dv centralDirOffset k + 28) \<le> int (length dv)"
    by simp
  from parse_loop_sound [OF this]
  obtain fs :: "'s ZipFileInfo list"
    where run: "parse_loop decode dv numEntries 0 centralDirOffset [] = Inr fs"
    by blast
  from parse_loop_Inr [OF run]
  have len: "int (length fs) = max 0 (numEntries - 0)"
    and recs: "\<forall>k<length fs.
        parseCentralDirectoryEntry decode dv (spec_cursor dv centralDirOffset k) = Inr (fs ! k)"
    by auto
  from getUint16_bounds [OF found(4)] len have count: "int (length fs) = numEntries"
    by simp
  have "new_ZipReader decode dv = Inr \<lparr>dataView = dv, files = fs\<rparr>"
    using walk run by (simp add: new_ZipReader_def)
  with count recs
  show "\<exists>this :: 's ZipReader. new_ZipReader decode dv = Inr this \<and> dataView this = dv \<and>
         int (length (getFiles this)) = numEntries \<and>
         (\<forall>k<length (getFiles this).
            parseCentralDirectoryEntry decode dv (spec_cursor dv centralDirOffset k) =
              Inr (getFiles this ! k))"
    by (intro exI [of _ "\<lparr>dataView = dv, files = fs\<rparr>"]) (simp add: getFiles_def)
qed

theorem parse_walks_central_directory_witness:
  "(\<exists>this. new_ZipReader ascii example_zip = Inr this \<and> dataView this = example_zip \<and>
      int (length (getFiles this)) = 3) \<and>
   new_ZipReader ascii example_zip = Inr example_reader \<and>
   getUint16 example_zip (240 + 10) = Inr 3 \<and>
   int (length (getFiles example_reader)) = 3 \<and>
   new_ZipReader ascii (example_zip[146 := 0x51]) = Inl InvalidCentralDirectorySignature"
proof -
  have trailer: "findEOCD example_zip = Inr 240 \<and> (240::int) \<noteq> - 1 \<and>
      getUint32 example_zip (240 + 16) = Inr 99 \<and> getUint16 example_zip (240 + 10) = Inr 3"
    using example_findEOCD example_trailer_fields by simp
  from parse_walks_central_directory [of ascii example_zip] trailer
    example_directory_sound_all
  have built: "\<exists>this. new_ZipReader ascii example_zip = Inr this \<and> dataView this = example_zip \<and>
      int (length (getFiles this)) = 3"
    by blast
  from parse_walks_central_directory [of ascii example_zip] example_new_ZipReader
  obtain eocdOffset numEntries where
    "findEOCD example_zip = Inr eocdOffset"
    "getUint16 example_zip (eocdOffset + 10) = Inr numEntries"
    "int (length (getFiles example_reader)) = numEntries"
    by blast
  with example_findEOCD example_trailer_fields
  have count: "int (length (getFiles example_reader)) = 3"
    by simp
  have first: "\<forall>j<1. getUint32 (example_zip[146 := 0x51])
        (spec_cursor (example_zip[146 := 0x51]) 99 j) = Inr 0x02014b50 \<and>
      (\<exists>e. parseCentralDirectoryEntry ascii (example_zip[146 := 0x51])
        (spec_cursor (example_zip[146 := 0x51]) 99 j) = Inr e)"
    using example_damaged_records example_damaged_cursor by simp
  have second: "getUint32 (example_zip[146 := 0x51])
      (spec_cursor (example_zip[146 := 0x51]) 99 1) = Inr 0x02014b51 \<and>
      (0x02014b51::int) \<noteq> 0x02014b50"
    using example_damaged_records example_damaged_cursor by simp
  have "findEOCD (example_zip[146 := 0x51]) = Inr 240 \<and> (240::int) \<noteq> - 1 \<and>
      getUint32 (example_zip[146 := 0x51]) (240 + 16) = Inr 99 \<and>
      getUint16 (example_zip[146 := 0x51]) (240 + 10) = Inr 3 \<and>
      int 1 < 3"
    using example_damaged_trailer by simp
  with parse_walks_central_directory [of ascii "example_zip[146 := 0x51]"] first second
  have damaged: "new_ZipReader ascii (example_zip[146 := 0x51]) =
      Inl InvalidCentralDirectorySignature"
    by blast
  from built example_new_ZipReader example_trailer_fields count damaged
  show ?thesis by blast
qed

text \<open>
  C3 says that extraction of an entry whose encrypted flag is set fails with an
  \<open>unsupported\<close> error before the local header is read. \<^verbatim>\<open>extractFile\<close> has no such
  check. In the example archive the first member \<open>a\<close> has the flag set, and extraction
  reads its local header and returns its two bytes.
\<close>

theorem encrypted_entry_is_extracted:
  "new_ZipReader ascii example_zip = Inr example_reader \<and>
   getFiles example_reader ! 0 = example_file1 \<and>
   filename example_file1 = ''a'' \<and>
   encrypted example_file1 \<and>
   fst (extractFile example_reader ''a'') = Inr (Some (EnqueueClose [0x68, 0x69]))"
  by (simp add: example_new_ZipReader example_getFiles0 example_file1_fields example_extract_a)

text \<open>
  C3, amended. The \<open>encrypted\<close> field of a parsed record is bit 0 of the general-purpose
  flag at +8 of the record. Extraction never consults it: two readers over the same buffer
  whose entry lists are equal once every \<open>encrypted\<close> field is cleared give the same
  outcome for every name, so an entry with the flag set is extracted as it would be with the
  flag clear.
\<close>

theorem encrypted_flag_not_consulted:
  "(\<forall>e. parseCentralDirectoryEntry decode dv offs = Inr e \<longrightarrow>
      (\<exists>generalPurpose. getUint16 dv (offs + 8) = Inr generalPurpose \<and>
         encrypted e = bit generalPurpose 0)) \<and>
   (\<forall>this'. dataView this' = dataView (this :: 's ZipReader) \<and>
      map (\<lambda>f. f\<lparr>encrypted := False\<rparr>) (files this') =
        map (\<lambda>f. f\<lparr>encrypted := False\<rparr>) (files this) \<longrightarrow>
      fst (extractFile this' name) = fst (extractFile this name))"
proof (intro conjI allI impI)
  fix e
  assume "parseCentralDirectoryEntry decode dv offs = Inr e"
  from parseCentralDirectoryEntry_fields [OF this]
  obtain generalPurpose where
    gp: "getUint16 dv (offs + 8) = Inr generalPurpose"
    and enc: "encrypted e = (js_and generalPurpose 0x0001 \<noteq> 0)"
    by blast
  from getUint16_bounds [OF gp] have "(js_and generalPurpose 0x0001 \<noteq> 0) = bit generalPurpose 0"
    by (intro js_and_bit0) simp_all
  with gp enc show "\<exists>generalPurpose. getUint16 dv (offs + 8) = Inr generalPurpose \<and>
         encrypted e = bit generalPurpose 0"
    by simp
next
  fix this' :: "'s ZipReader"
  assume a: "dataView this' = dataView this \<and>
      map (\<lambda>f. f\<lparr>encrypted := False\<rparr>) (files this') =
        map (\<lambda>f. f\<lparr>encrypted := False\<rparr>) (files this)"
  then have "list_all2 (\<lambda>a b. a\<lparr>encrypted := False\<rparr> = b\<lparr>encrypted := False\<rparr>)
      (files this') (files this)"
    by (simp add: list_all2_of_map_eq)
  then have "list_all2 (\<lambda>a b. filename a = filename b \<and> offset a = offset b \<and>
               compressedSize a = compressedSize b \<and>
               compressionMethod a = compressionMethod b) (files this') (files this)"
    by (rule list_all2_mono) (rule blank_encrypted_agree)
  with a show "fst (extractFile this' name) = fst (extractFile this name)"
    by (simp add: extractFile_agree)
qed

theorem encrypted_flag_not_consulted_witness:
  "(\<exists>generalPurpose. getUint16 example_zip (99 + 8) = Inr generalPurpose \<and>
      encrypted example_file1 = bit generalPurpose 0) \<and>
   encrypted example_file1 \<and>
   fst (extractFile
      (example_reader\<lparr>files :=
         [example_file1\<lparr>encrypted := False\<rparr>, example_file2, example_file3]\<rparr>) ''a'') =
     fst (extractFile example_reader ''a'')"
proof -
  from encrypted_flag_not_consulted [of ascii example_zip 99 example_reader "''a''"]
    example_parse_entry1
  have flag: "\<exists>generalPurpose. getUint16 example_zip (99 + 8) = Inr generalPurpose \<and>
      encrypted example_file1 = bit generalPurpose 0"
    by blast
  have same: "dataView (example_reader\<lparr>files :=
         [example_file1\<lparr>encrypted := False\<rparr>, example_file2, example_file3]\<rparr>) =
       dataView example_reader \<and>
     map (\<lambda>f. f\<lparr>encrypted := False\<rparr>) (files (example_reader\<lparr>files :=
         [example_file1\<lparr>encrypted := False\<rparr>, example_file2, example_file3]\<rparr>)) =
     map (\<lambda>f. f\<lparr>encrypted := False\<rparr>) (files example_reader)"
    by (simp add: example_reader_def)
  from encrypted_flag_not_consulted [of ascii example_zip 99 example_reader "''a''"] same
  have "fst (extractFile
      (example_reader\<lparr>files :=
         [example_file1\<lparr>encrypted := False\<rparr>, example_file2, example_file3]\<rparr>) ''a'') =
     fst (extractFile example_reader ''a'')"
    by blast
  with flag example_file1_fields show ?thesis by blast
qed

text \<open>
  C4. Once the local header has been read and the compressed bytes sliced, extraction
  dispatches on \<open>compressionMethod\<close>: for 0 the stream carries the slice itself; for 8 it is
  that stream piped through the raw-deflate decompressor; for any other value the call fails
  with the \<open>unsupported compression method\<close> error, which carries the method's number. That
  error arises only so: when a call fails with it for a number \<open>m\<close>, the entry found has
  method \<open>m\<close>, and \<open>m\<close> is neither 0 nor 8.
\<close>

theorem extractFile_dispatch:
  "(\<forall>fileInfo filenameLen extraLen compressedData.
      find (\<lambda>f. filename f = name) (files this) = Some fileInfo \<and>
      getUint32 (dataView this) (offset fileInfo) = Inr 0x04034b50 \<and>
      getUint16 (dataView this) (offset fileInfo + 26) = Inr filenameLen \<and>
      getUint16 (dataView this) (offset fileInfo + 28) = Inr extraLen \<and>
      Uint8Array (dataView this) (offset fileInfo + 30 + filenameLen + extraLen)
        (compressedSize fileInfo) = Inr compressedData \<longrightarrow>
      fst (extractFile this name) =
        (if compressionMethod fileInfo = 0 then Inr (Some (EnqueueClose compressedData))
         else if compressionMethod fileInfo = 8 then
           Inr (Some (PipeThroughDeflateRaw (EnqueueClose compressedData)))
         else Inl (UnsupportedCompressionMethod (compressionMethod fileInfo)))) \<and>
   (\<forall>m. fst (extractFile this name) = Inl (UnsupportedCompressionMethod m) \<longrightarrow>
      (\<exists>fileInfo. find (\<lambda>f. filename f = name) (files this) = Some fileInfo \<and>
         compressionMethod fileInfo = m \<and> m \<noteq> 0 \<and> m \<noteq> 8))"
proof (intro conjI allI impI)
  fix fileInfo filenameLen extraLen compressedData
  assume a: "find (\<lambda>f. filename f = name) (files this) = Some fileInfo \<and>
      getUint32 (dataView this) (offset fileInfo) = Inr 0x04034b50 \<and>
      getUint16 (dataView this) (offset fileInfo + 26) = Inr filenameLen \<and>
      getUint16 (dataView this) (offset fileInfo + 28) = Inr extraLen \<and>
      Uint8Array (dataView this) (offset fileInfo + 30 + filenameLen + extraLen)
        (compressedSize fileInfo) = Inr compressedData"
  then have hit: "find (\<lambda>f. filename f = name) (files this) = Some fileInfo"
    by simp
  from a show "fst (extractFile this name) =
        (if compressionMethod fileInfo = 0 then Inr (Some (EnqueueClose compressedData))
         else if compressionMethod fileInfo = 8 then
           Inr (Some (PipeThroughDeflateRaw (EnqueueClose compressedData)))
         else Inl (UnsupportedCompressionMethod (compressionMethod fileInfo)))"
    by (simp add: extractFile_found [OF hit])
next
  fix m
  assume bad: "fst (extractFile this name) = Inl (UnsupportedCompressionMethod m)"
  show "\<exists>fileInfo. find (\<lambda>f. filename f = name) (files this) = Some fileInfo \<and>
         compressionMethod fileInfo = m \<and> m \<noteq> 0 \<and> m \<noteq> 8"
  proof (cases "find (\<lambda>f. filename f = name) (files this)")
    case None
    with bad show ?thesis by (simp add: extractFile_not_found)
  next
    case (Some fileInfo)
    from bad have "compressionMethod fileInfo = m \<and> m \<noteq> 0 \<and> m \<noteq> 8"
      unfolding extractFile_found [OF Some] try_bind_eq_Inl
      by (auto simp: getUint32_def getUint16_def Uint8Array_def split: if_splits)
    with Some show ?thesis by simp
  qed
qed

theorem extractFile_dispatch_witness:
  "fst (extractFile example_reader ''a'') = Inr (Some (EnqueueClose [0x68, 0x69])) \<and>
   fst (extractFile (example_reader\<lparr>files := [example_file2]\<rparr>) ''a'') =
     Inr (Some (PipeThroughDeflateRaw (EnqueueClose [0x03, 0x00]))) \<and>
   fst (extractFile example_reader ''b'') = Inl (UnsupportedCompressionMethod 12) \<and>
   (\<exists>fileInfo. find (\<lambda>f. filename f = ''b'') (files example_reader) = Some fileInfo \<and>
      compressionMethod fileInfo = 12)"
proof -
  from extractFile_dispatch [of "''a''" example_reader] example_find_a example_header_a
  have "fst (extractFile example_reader ''a'') =
        (if compressionMethod example_file1 = 0 then Inr (Some (EnqueueClose [0x68, 0x69]))
         else if compressionMethod example_file1 = 8 then
           Inr (Some (PipeThroughDeflateRaw (EnqueueClose [0x68, 0x69])))
         else Inl (UnsupportedCompressionMethod (compressionMethod example_file1)))"
    by blast
  then have stored: "fst (extractFile example_reader ''a'') =
      Inr (Some (EnqueueClose [0x68, 0x69]))"
    by (simp add: example_methods)
  from extractFile_dispatch [of "''a''" "example_reader\<lparr>files := [example_file2]\<rparr>"]
    example_find_file2 example_header_file2
  have "fst (extractFile (example_reader\<lparr>files := [example_file2]\<rparr>) ''a'') =
        (if compressionMethod example_file2 = 0 then Inr (Some (EnqueueClose [0x03, 0x00]))
         else if compressionMethod example_file2 = 8 then
           Inr (Some (PipeThroughDeflateRaw (EnqueueClose [0x03, 0x00])))
         else Inl (UnsupportedCompressionMethod (compressionMethod example_file2)))"
    by blast
  then have deflated: "fst (extractFile (example_reader\<lparr>files := [example_file2]\<rparr>) ''a'') =
      Inr (Some (PipeThroughDeflateRaw (EnqueueClose [0x03, 0x00])))"
    by (simp add: example_methods)
  from extractFile_dispatch [of "''b''" example_reader] example_find_b example_header_b
  have "fst (extractFile example_reader ''b'') =
        (if compressionMethod example_file3 = 0 then Inr (Some (EnqueueClose [0x07]))
         else if compressionMethod example_file3 = 8 then
           Inr (Some (PipeThroughDeflateRaw (EnqueueClose [0x07])))
         else Inl (UnsupportedCompressionMethod (compressionMethod example_file3)))"
    by blast
  then have other: "fst (extractFile example_reader ''b'') = Inl (UnsupportedCompressionMethod 12)"
    by (simp add: example_methods)
  from extractFile_dispatch [of "''b''" example_reader] other
  have only: "\<exists>fileInfo. find (\<lambda>f. filename f = ''b'') (files example_reader) = Some fileInfo \<and>
      compressionMethod fileInfo = 12"
    by blast
  from stored deflated other only show ?thesis by blast
qed

text \<open>
  C5. Construction looks for the trailer signature \<open>0x06054B50\<close> (read little-endian) at
  the offsets from \<open>byteLength - 22\<close> down to \<open>max 0 (byteLength - 22 - 65535)\<close>.
  \<^verbatim>\<open>findEOCD\<close> always returns: when some offset of that window holds the signature it
  returns the highest such offset; when none does (so also when the buffer has fewer than
  22 bytes, the window being empty) it returns \<open>-1\<close> and construction fails with the
  \<open>EOCD not found\<close> error, so that no reader, and no partial list of entries, exists.
\<close>

theorem findEOCD_backward_scan:
  "\<exists>r. findEOCD dv = Inr r \<and>
     (if \<exists>j. max 0 (int (length dv) - 22 - 65535) \<le> j \<and> j \<le> int (length dv) - 22 \<and>
             getUint32 dv j = Inr 0x06054b50
      then max 0 (int (length dv) - 22 - 65535) \<le> r \<and> r \<le> int (length dv) - 22 \<and>
           getUint32 dv r = Inr 0x06054b50 \<and>
           (\<forall>j. r < j \<and> j \<le> int (length dv) - 22 \<longrightarrow> getUint32 dv j \<noteq> Inr 0x06054b50)
      else r = - 1 \<and> new_ZipReader decode dv = Inl EOCDNotFound)"
proof -
  let ?lo = "max 0 (int (length dv) - 22 - 65535)"
  let ?hi = "int (length dv) - 22"
  have run: "findEOCD dv = findEOCD_loop dv ?lo ?hi"
    by (simp add: findEOCD_def)
  have "\<exists>r. findEOCD_loop dv ?lo ?hi = Inr r"
    by (rule findEOCD_loop_total) simp_all
  then obtain r where r: "findEOCD_loop dv ?lo ?hi = Inr r" ..
  show ?thesis
  proof (cases "r = - 1")
    case True
    have none: "\<not> (\<exists>j. ?lo \<le> j \<and> j \<le> ?hi \<and> getUint32 dv j = Inr 0x06054b50)"
      using findEOCD_loop_none [of dv ?lo ?hi] r True by auto
    have "new_ZipReader decode dv = Inl EOCDNotFound"
      using run r True by (simp add: new_ZipReader_def parse_def)
    with none run r True show ?thesis by simp
  next
    case False
    from findEOCD_loop_found [OF r False]
    have found: "?lo \<le> r" "r \<le> ?hi" "getUint32 dv r = Inr 0x06054b50"
      "\<forall>j. r < j \<and> j \<le> ?hi \<longrightarrow> getUint32 dv j \<noteq> Inr 0x06054b50"
      by simp_all
    then have "\<exists>j. ?lo \<le> j \<and> j \<le> ?hi \<and> getUint32 dv j = Inr 0x06054b50"
      by blast
    with found run r show ?thesis by simp
  qed
qed

theorem findEOCD_backward_scan_witness:
  "findEOCD example_zip = Inr 240 \<and>
   getUint32 example_zip 240 = Inr 0x06054b50 \<and>
   getUint32 example_zip 241 \<noteq> Inr 0x06054b50 \<and>
   getUint32 example_zip 242 \<noteq> Inr 0x06054b50 \<and>
   new_ZipReader ascii (replicate 21 0) = Inl EOCDNotFound"
proof -
  have win: "\<exists>j. max 0 (int (length example_zip) - 22 - 65535) \<le> j \<and>
      j \<le> int (length example_zip) - 22 \<and> getUint32 example_zip j = Inr 0x06054b50"
    by (rule exI [of _ 240]) (simp add: example_length example_sig_240)
  have above: "\<forall>j. 240 < j \<and> j \<le> 242 \<longrightarrow> getUint32 example_zip j \<noteq> Inr 0x06054b50"
    using findEOCD_backward_scan [of example_zip ascii] win
    by (simp add: example_findEOCD example_length)
  have short: "new_ZipReader ascii (replicate 21 0) = Inl EOCDNotFound"
    using findEOCD_backward_scan [of "replicate 21 0" ascii] by auto
  from above short show ?thesis
    by (simp add: example_findEOCD example_sig_240)
qed

text \<open>
  C6. \<^verbatim>\<open>extractFile\<close> looks the name up with \<^verbatim>\<open>files.find\<close> and exact equality of
  strings. When no entry has the name, the call returns \<^verbatim>\<open>null\<close>, throws nothing and
  leaves the reader as it was. When entries have the name, the outcome is that of the first
  one in central-directory order, whatever follows it in the list (so a later entry of the
  same name is never reached), and it is not \<^verbatim>\<open>null\<close>.
\<close>

theorem extractFile_lookup:
  "((\<forall>f\<in>set (files this). filename f \<noteq> name) \<longrightarrow>
      extractFile this name = (Inr None, this)) \<and>
   (\<forall>pre e post.
      files this = pre @ e # post \<and> (\<forall>f\<in>set pre. filename f \<noteq> name) \<and> filename e = name \<longrightarrow>
      fst (extractFile this name) = fst (extractFile (this\<lparr>files := [e]\<rparr>) name) \<and>
      fst (extractFile this name) \<noteq> Inr None)"
proof (intro conjI allI impI)
  assume "\<forall>f\<in>set (files this). filename f \<noteq> name"
  then have "find (\<lambda>f. filename f = name) (files this) = None"
    by (simp add: find_None_iff)
  then show "extractFile this name = (Inr None, this)"
    by (rule extractFile_not_found)
next
  fix pre e post
  assume a: "files this = pre @ e # post \<and> (\<forall>f\<in>set pre. filename f \<noteq> name) \<and> filename e = name"
  then have hit: "find (\<lambda>f. filename f = name) (files this) = Some e"
    by (simp add: find_first_match)
  from a have one: "find (\<lambda>f. filename f = name) (files (this\<lparr>files := [e]\<rparr>)) = Some e"
    by simp
  show "fst (extractFile this name) = fst (extractFile (this\<lparr>files := [e]\<rparr>) name)"
    by (simp add: extractFile_found [OF hit] extractFile_found [OF one] cong: if_cong)
  show "fst (extractFile this name) \<noteq> Inr None"
    using hit by (rule extractFile_found_not_null)
qed

theorem extractFile_lookup_witness:
  "extractFile example_reader ''A'' = (Inr None, example_reader) \<and>
   fst (extractFile example_reader ''a'') =
     fst (extractFile (example_reader\<lparr>files := [example_file1]\<rparr>) ''a'') \<and>
   fst (extractFile example_reader ''a'') \<noteq> Inr None \<and>
   fst (extractFile example_reader ''a'') = Inr (Some (EnqueueClose [0x68, 0x69])) \<and>
   fst (extractFile (example_reader\<lparr>files := [example_file2]\<rparr>) ''a'') =
     Inr (Some (PipeThroughDeflateRaw (EnqueueClose [0x03, 0x00])))"
proof -
  have miss: "\<forall>f\<in>set (files example_reader). filename f \<noteq> ''A''"
    by (simp add: example_reader_def example_file1_def example_file2_def example_file3_def)
  have hit: "files example_reader = [] @ example_file1 # [example_file2, example_file3] \<and>
      (\<forall>f\<in>set []. filename f \<noteq> ''a'') \<and> filename example_file1 = ''a''"
    by (simp add: example_reader_def example_file1_def)
  from extractFile_lookup [of example_reader "''A''"] miss
  have none: "extractFile example_reader ''A'' = (Inr None, example_reader)"
    by blast
  from extractFile_lookup [of example_reader "''a''"] hit
  have first: "fst (extractFile example_reader ''a'') =
          fst (extractFile (example_reader\<lparr>files := [example_file1]\<rparr>) ''a'') \<and>
        fst (extractFile example_reader ''a'') \<noteq> Inr None"
    by blast
  have stored: "fst (extractFile example_reader ''a'') = Inr (Some (EnqueueClose [0x68, 0x69]))"
    by (simp add: example_extract_a)
  have second: "fst (extractFile (example_reader\<lparr>files := [example_file2]\<rparr>) ''a'') =
      Inr (Some (PipeThroughDeflateRaw (EnqueueClose [0x03, 0x00])))"
    by (simp add: example_extract_only_file2)
  from none first stored second show ?thesis by blast
qed

text \<open>
  C7 says that the timestamp of every entry has the year, month and day of the packed date
  and the hour, minute and seconds of the packed time. The source hands the fields to
  \<^verbatim>\<open>new Date\<close> as they are, and \<^verbatim>\<open>Date\<close> moves values out of range into the
  neighbouring month or year. In the example archive with the date and time of the first
  record set to zero, the fields are year 1980, month 0 and day 0, and the timestamp of the
  entry is 30 November 1979.
\<close>

theorem zero_date_is_30_november_1979:
  "new_ZipReader ascii zero_date_zip = Inr zero_date_reader \<and>
   getUint16 zero_date_zip (99 + 14) = Inr 0 \<and>
   getUint16 zero_date_zip (99 + 12) = Inr 0 \<and>
   getFullYear utc_zone (lastModified (getFiles zero_date_reader ! 0)) = 1979 \<and>
   getMonth utc_zone (lastModified (getFiles zero_date_reader ! 0)) = 10 \<and>
   getDate utc_zone (lastModified (getFiles zero_date_reader ! 0)) = 30"
  using zero_date_new_ZipReader zero_date_fields zero_date_getters by blast

text \<open>
  C7, amended. For every central-directory record that parses (and a record that lies in
  the buffer parses), \<open>lastModified\<close> is the \<^verbatim>\<open>Date\<close> that the constructor makes of:
  year, bits 15-9 of the date plus 1980; month index, bits 8-5 minus 1; day, bits 4-0;
  hour, bits 15-11 of the time; minute, bits 10-5; seconds, twice bits 4-0. When these fields
  name a date and a time of the calendar (month 1 to 12, day from 1 to the length of the
  month, hour at most 23, minute at most 59, seconds field at most 29) and that local time
  exists in the zone of the host (the zone gives the same offset for the local time and
  for the time value it is converted to), the local year, month (counted from 1), day, hour,
  minute and second of the timestamp are exactly these fields.
\<close>

theorem lastModified_from_dos_fields:
  "(0 \<le> offs \<and> offs + 46 + spec_field16 dv (offs + 28) \<le> int (length dv) \<longrightarrow>
      (\<exists>e. parseCentralDirectoryEntry decode dv offs = Inr e)) \<and>
   (\<forall>e. parseCentralDirectoryEntry decode dv offs = Inr e \<longrightarrow>
      (\<exists>dosDate dosTime.
         getUint16 dv (offs + 14) = Inr dosDate \<and> getUint16 dv (offs + 12) = Inr dosTime \<and>
         lastModified e =
           new_Date (take_bit 7 (drop_bit 9 dosDate) + 1980) (take_bit 4 (drop_bit 5 dosDate) - 1)
             (take_bit 5 dosDate) (take_bit 5 (drop_bit 11 dosTime))
             (take_bit 6 (drop_bit 5 dosTime)) (2 * take_bit 5 dosTime) \<and>
         (1 \<le> take_bit 4 (drop_bit 5 dosDate) \<and> take_bit 4 (drop_bit 5 dosDate) \<le> 12 \<and>
          1 \<le> take_bit 5 dosDate \<and>
          take_bit 5 dosDate \<le>
            days_in_month (take_bit 7 (drop_bit 9 dosDate) + 1980)
              (take_bit 4 (drop_bit 5 dosDate) - 1) \<and>
          take_bit 5 (drop_bit 11 dosTime) \<le> 23 \<and>
          take_bit 6 (drop_bit 5 dosTime) \<le> 59 \<and>
          take_bit 5 dosTime \<le> 29 \<and>
          tz (finalDate (lastModified e) - tz (finalDate (lastModified e)) False) True =
            tz (finalDate (lastModified e)) False \<longrightarrow>
          getFullYear tz (lastModified e) = take_bit 7 (drop_bit 9 dosDate) + 1980 \<and>
          getMonth tz (lastModified e) + 1 = take_bit 4 (drop_bit 5 dosDate) \<and>
          getDate tz (lastModified e) = take_bit 5 dosDate \<and>
          getHours tz (lastModified e) = take_bit 5 (drop_bit 11 dosTime) \<and>
          getMinutes tz (lastModified e) = take_bit 6 (drop_bit 5 dosTime) \<and>
          getSeconds tz (lastModified e) = 2 * take_bit 5 dosTime)))"
proof (intro conjI allI impI)
  assume "0 \<le> offs \<and> offs + 46 + spec_field16 dv (offs + 28) \<le> int (length dv)"
  then show "\<exists>e. parseCentralDirectoryEntry decode dv offs = Inr e"
    by (simp add: parseCentralDirectoryEntry_total)
next
  fix e
  assume "parseCentralDirectoryEntry decode dv offs = Inr e"
  from parseCentralDirectoryEntry_fields [OF this]
  obtain dosTime dosDate where
    t: "getUint16 dv (offs + 12) = Inr dosTime" and d: "getUint16 dv (offs + 14) = Inr dosDate"
    and lm: "lastModified e = dosDateTimeToDate dosDate dosTime"
    by blast
  let ?Y = "take_bit 7 (drop_bit 9 dosDate) + 1980"
  let ?M = "take_bit 4 (drop_bit 5 dosDate)"
  let ?D = "take_bit 5 dosDate"
  let ?H = "take_bit 5 (drop_bit 11 dosTime)"
  let ?MI = "take_bit 6 (drop_bit 5 dosTime)"
  let ?S = "take_bit 5 dosTime"
  from getUint16_bounds [OF d] getUint16_bounds [OF t]
  have "dosDateTimeToDate dosDate dosTime = new_Date ?Y (?M - 1) ?D ?H ?MI (?S * 2)"
    by (intro dosDateTimeToDate_bits) simp_all
  with lm have args: "lastModified e = new_Date ?Y (?M - 1) ?D ?H ?MI (2 * ?S)"
    by (simp add: mult.commute)
  have fields: "getFullYear tz (lastModified e) = ?Y \<and>
          getMonth tz (lastModified e) + 1 = ?M \<and>
          getDate tz (lastModified e) = ?D \<and>
          getHours tz (lastModified e) = ?H \<and>
          getMinutes tz (lastModified e) = ?MI \<and>
          getSeconds tz (lastModified e) = 2 * ?S"
    if valid: "1 \<le> ?M \<and> ?M \<le> 12 \<and> 1 \<le> ?D \<and> ?D \<le> days_in_month ?Y (?M - 1) \<and>
          ?H \<le> 23 \<and> ?MI \<le> 59 \<and> ?S \<le> 29 \<and>
          tz (finalDate (lastModified e) - tz (finalDate (lastModified e)) False) True =
            tz (finalDate (lastModified e)) False"
  proof -
    have "1970 \<le> ?Y"
      using take_bit_nonneg_int [of 7 "drop_bit 9 dosDate"] by simp
    moreover have "0 \<le> ?M - 1" "?M - 1 \<le> 11" "1 \<le> ?D" "?D \<le> days_in_month ?Y (?M - 1)"
      using valid by simp_all
    moreover have "0 \<le> ?H" "?H \<le> 23" "0 \<le> ?MI" "?MI \<le> 59" "0 \<le> 2 * ?S" "2 * ?S \<le> 59"
      using valid by simp_all
    moreover have "tz (finalDate (new_Date ?Y (?M - 1) ?D ?H ?MI (2 * ?S)) -
        tz (finalDate (new_Date ?Y (?M - 1) ?D ?H ?MI (2 * ?S))) False) True =
        tz (finalDate (new_Date ?Y (?M - 1) ?D ?H ?MI (2 * ?S))) False"
      using valid args by simp
    ultimately have "getFullYear tz (new_Date ?Y (?M - 1) ?D ?H ?MI (2 * ?S)) = ?Y \<and>
         getMonth tz (new_Date ?Y (?M - 1) ?D ?H ?MI (2 * ?S)) = ?M - 1 \<and>
         getDate tz (new_Date ?Y (?M - 1) ?D ?H ?MI (2 * ?S)) = ?D \<and>
         getHours tz (new_Date ?Y (?M - 1) ?D ?H ?MI (2 * ?S)) = ?H \<and>
         getMinutes tz (new_Date ?Y (?M - 1) ?D ?H ?MI (2 * ?S)) = ?MI \<and>
         getSeconds tz (new_Date ?Y (?M - 1) ?D ?H ?MI (2 * ?S)) = 2 * ?S"
      by (rule new_Date_fields)
    then show ?thesis
      unfolding args by simp
  qed
  from d t args fields
  show "\<exists>dosDate dosTime.
         getUint16 dv (offs + 14) = Inr dosDate \<and> getUint16 dv (offs + 12) = Inr dosTime \<and>
         lastModified e =
           new_Date (take_bit 7 (drop_bit 9 dosDate) + 1980) (take_bit 4 (drop_bit 5 dosDate) - 1)
             (take_bit 5 dosDate) (take_bit 5 (drop_bit 11 dosTime))
             (take_bit 6 (drop_bit 5 dosTime)) (2 * take_bit 5 dosTime) \<and>
         (1 \<le> take_bit 4 (drop_bit 5 dosDate) \<and> take_bit 4 (drop_bit 5 dosDate) \<le> 12 \<and>
          1 \<le> take_bit 5 dosDate \<and>
          take_bit 5 dosDate \<le>
            days_in_month (take_bit 7 (drop_bit 9 dosDate) + 1980)
              (take_bit 4 (drop_bit 5 dosDate) - 1) \<and>
          take_bit 5 (drop_bit 11 dosTime) \<le> 23 \<and>
          take_bit 6 (drop_bit 5 dosTime) \<le> 59 \<and>
          take_bit 5 dosTime \<le> 29 \<and>
          tz (finalDate (lastModified e) - tz (finalDate (lastModified e)) False) True =
            tz (finalDate (lastModified e)) False \<longrightarrow>
          getFullYear tz (lastModified e) = take_bit 7 (drop_bit 9 dosDate) + 1980 \<and>
          getMonth tz (lastModified e) + 1 = take_bit 4 (drop_bit 5 dosDate) \<and>
          getDate tz (lastModified e) = take_bit 5 dosDate \<and>
          getHours tz (lastModified e) = take_bit 5 (drop_bit 11 dosTime) \<and>
          getMinutes tz (lastModified e) = take_bit 6 (drop_bit 5 dosTime) \<and>
          getSeconds tz (lastModified e) = 2 * take_bit 5 dosTime)"
    by blast
qed

theorem lastModified_from_dos_fields_witness:
  "(\<exists>e. parseCentralDirectoryEntry ascii example_zip 99 = Inr e) \<and>
   parseCentralDirectoryEntry ascii example_zip 99 = Inr example_file1 \<and>
   getFullYear utc_zone (lastModified example_file1) = 2025 \<and>
   getMonth utc_zone (lastModified example_file1) + 1 = 9 \<and>
   getDate utc_zone (lastModified example_file1) = 30 \<and>
   getHours utc_zone (lastModified example_file1) = 16 \<and>
   getMinutes utc_zone (lastModified example_file1) = 5 \<and>
   getSeconds utc_zone (lastModified example_file1) = 48"
proof -
  from lastModified_from_dos_fields [of 99 example_zip ascii utc_zone] example_record_fits
  have parses: "\<exists>e. parseCentralDirectoryEntry ascii example_zip 99 = Inr e"
    by blast
  from lastModified_from_dos_fields [of 99 example_zip ascii utc_zone] example_parse_entry1
  obtain dosDate dosTime where
    d: "getUint16 example_zip (99 + 14) = Inr dosDate"
    and t: "getUint16 example_zip (99 + 12) = Inr dosTime"
    and fields: "1 \<le> take_bit 4 (drop_bit 5 dosDate) \<and> take_bit 4 (drop_bit 5 dosDate) \<le> 12 \<and>
          1 \<le> take_bit 5 dosDate \<and>
          take_bit 5 dosDate \<le>
            days_in_month (take_bit 7 (drop_bit 9 dosDate) + 1980)
              (take_bit 4 (drop_bit 5 dosDate) - 1) \<and>
          take_bit 5 (drop_bit 11 dosTime) \<le> 23 \<and>
          take_bit 6 (drop_bit 5 dosTime) \<le> 59 \<and>
          take_bit 5 dosTime \<le> 29 \<and>
          utc_zone (finalDate (lastModified example_file1) -
            utc_zone (finalDate (lastModified example_file1)) False) True =
            utc_zone (finalDate (lastModified example_file1)) False \<longrightarrow>
          getFullYear utc_zone (lastModified example_file1) =
            take_bit 7 (drop_bit 9 dosDate) + 1980 \<and>
          getMonth utc_zone (lastModified example_file1) + 1 = take_bit 4 (drop_bit 5 dosDate) \<and>
          getDate utc_zone (lastModified example_file1) = take_bit 5 dosDate \<and>
          getHours utc_zone (lastModified example_file1) = take_bit 5 (drop_bit 11 dosTime) \<and>
          getMinutes utc_zone (lastModified example_file1) = take_bit 6 (drop_bit 5 dosTime) \<and>
          getSeconds utc_zone (lastModified example_file1) = 2 * take_bit 5 dosTime"
    by blast
  from d t example_date_time_fields have v: "dosDate = 0x5b3e" "dosTime = 0x80b8"
    by simp_all
  have small: "take_bit 5 (0x80b8::int) = 24"
    using example_bits by simp
  from fields example_bits small example_days_in_month
  have "getFullYear utc_zone (lastModified example_file1) = 2025 \<and>
   getMonth utc_zone (lastModified example_file1) + 1 = 9 \<and>
   getDate utc_zone (lastModified example_file1) = 30 \<and>
   getHours utc_zone (lastModified example_file1) = 16 \<and>
   getMinutes utc_zone (lastModified example_file1) = 5 \<and>
   getSeconds utc_zone (lastModified example_file1) = 48"
    unfolding v by (simp add: utc_zone_def)
  with parses example_parse_entry1 show ?thesis by blast
qed

text \<open>
  C8. A call of \<^verbatim>\<open>extractFile\<close> leaves the reader (buffer and entry list) as it found it,
  whether it returns a stream, returns \<^verbatim>\<open>null\<close> or throws. So in any sequence of calls on
  one reader, each failure caught by the caller, every call has the outcome it would have
  as the first call, and the reader is unchanged at the end: a failure does not prevent
  later extractions, and entries can be extracted repeatedly and in any order.
\<close>

theorem extractFile_frame:
  "snd (extractFile this name) = this \<and>
   extract_calls this names = (map (\<lambda>n. fst (extractFile this n)) names, this)"
proof
  show "snd (extractFile this name) = this"
    by (rule extractFile_state)
  show "extract_calls this names = (map (\<lambda>n. fst (extractFile this n)) names, this)"
  proof (induction names)
    case Nil
    show ?case by simp
  next
    case (Cons n names)
    obtain r this' where call: "extractFile this n = (r, this')"
      by (cases "extractFile this n")
    with extractFile_state [of this n] have "this' = this"
      by simp
    with call Cons show ?case by simp
  qed
qed


theorem extractFile_frame_witness:
  "snd (extractFile example_reader ''b'') = example_reader \<and>
   extract_calls example_reader [''b'', ''a'', ''zz'', ''a''] =
     ([Inl (UnsupportedCompressionMethod 12), Inr (Some (EnqueueClose [0x68, 0x69])),
       Inr None, Inr (Some (EnqueueClose [0x68, 0x69]))], example_reader)"
  using extractFile_frame [of example_reader "''b''" "[''b'', ''a'', ''zz'', ''a'']"]
  by (simp add: example_extract_a example_extract_b example_extract_zz)

text \<open>
  C9 says that two archives that differ only in the stored CRC of an entry extract to the
  same bytes. Extraction never reads the \<open>crc32\<close> field, but it reads the buffer where
  the entry says its payload is. In the archive whose payload range covers its own
  central-directory record, changing one byte of the CRC field changes the bytes extracted.
\<close>

theorem crc_bytes_inside_payload:
  "new_ZipReader ascii overlap_zip = Inr overlap_reader \<and>
   new_ZipReader ascii (overlap_zip[47 := 0xff]) = Inr overlap_reader' \<and>
   getUint32 overlap_zip (31 + 16) = Inr 0 \<and>
   getUint32 (overlap_zip[47 := 0xff]) (31 + 16) = Inr 0xff \<and>
   fst (extractFile overlap_reader ''a'') =
     Inr (Some (EnqueueClose [0x50, 0x4b, 0x01, 0x02, 0x1e, 0x03, 0x14, 0x00, 0x00, 0x00, 0x00, 0x00, 0xb8, 0x80, 0x3e, 0x5b, 0x00, 0x00, 0x00, 0x00])) \<and>
   fst (extractFile overlap_reader' ''a'') =
     Inr (Some (EnqueueClose [0x50, 0x4b, 0x01, 0x02, 0x1e, 0x03, 0x14, 0x00, 0x00, 0x00, 0x00, 0x00, 0xb8, 0x80, 0x3e, 0x5b, 0xff, 0x00, 0x00, 0x00])) \<and>
   fst (extractFile overlap_reader ''a'') \<noteq> fst (extractFile overlap_reader' ''a'')"
  using overlap_built overlap_crc_fields overlap_extracted by simp

text \<open>
  C9, amended. The \<open>crc32\<close> of an entry is the 32-bit field at +16 of its
  central-directory record (a record that lies in the buffer parses, with that value), and
  extraction never reads the field: readers over the same buffer whose entry lists are equal
  once every \<open>crc32\<close> is blanked give the same outcome for every name. Between two
  archives: when an archive constructs and a second buffer of the same length differs from
  it only within the four CRC bytes of one of its central-directory records, the record
  lying below the trailer, then the second constructs too, its entries are those of the
  first except for the \<open>crc32\<close> of that entry, which is the changed field, and extraction
  has the same outcome in both for every name whose entry has none of the four bytes in
  what extraction reads of the buffer: the signature and the two lengths of its local
  header, and its payload range. The same holds for the copy of the CRC in the local header
  of an entry (the four bytes at +14 of the header), when they lie below the central
  directory and below the trailer: the second buffer constructs, with the same entries, and
  the outcomes of extraction are the same; extraction of that entry reads none of these four
  bytes.
\<close>

theorem crc32_not_checked:
  "(0 \<le> offs \<and> offs + 46 + spec_field16 dv (offs + 28) \<le> int (length dv) \<longrightarrow>
      (\<exists>e. parseCentralDirectoryEntry decode dv offs = Inr e \<and>
         getUint32 dv (offs + 16) = Inr (crc32 e))) \<and>
   (\<forall>e. parseCentralDirectoryEntry decode dv offs = Inr e \<longrightarrow>
      getUint32 dv (offs + 16) = Inr (crc32 e)) \<and>
   (\<forall>this'. dataView this' = dataView (this :: 's ZipReader) \<and>
      map (\<lambda>f. f\<lparr>crc32 := 0\<rparr>) (files this') = map (\<lambda>f. f\<lparr>crc32 := 0\<rparr>) (files this) \<longrightarrow>
      fst (extractFile this' name) = fst (extractFile this name)) \<and>
   (\<forall>dv' (built :: 's ZipReader) eocdOffset centralDirOffset k.
      new_ZipReader decode dv = Inr built \<and>
      findEOCD dv = Inr eocdOffset \<and>
      getUint32 dv (eocdOffset + 16) = Inr centralDirOffset \<and>
      k < length (getFiles built) \<and>
      spec_cursor dv centralDirOffset k + 20 \<le> eocdOffset \<and>
      differ_only_at dv dv' (spec_cursor dv centralDirOffset k + 16) \<longrightarrow>
      (\<exists>built' c'. new_ZipReader decode dv' = Inr built' \<and> dataView built' = dv' \<and>
         getUint32 dv' (spec_cursor dv centralDirOffset k + 16) = Inr c' \<and>
         getFiles built' = (getFiles built)[k := (getFiles built ! k)\<lparr>crc32 := c'\<rparr>] \<and>
         (\<forall>name.
            (\<forall>fileInfo. find (\<lambda>f. filename f = name) (getFiles built) = Some fileInfo \<longrightarrow>
               reads_clear dv fileInfo (spec_cursor dv centralDirOffset k + 16)) \<longrightarrow>
            fst (extractFile built' name) = fst (extractFile built name)))) \<and>
   (\<forall>dv' (built :: 's ZipReader) eocdOffset centralDirOffset j.
      new_ZipReader decode dv = Inr built \<and>
      findEOCD dv = Inr eocdOffset \<and>
      getUint32 dv (eocdOffset + 16) = Inr centralDirOffset \<and>
      j < length (getFiles built) \<and>
      offset (getFiles built ! j) + 18 \<le> centralDirOffset \<and>
      offset (getFiles built ! j) + 18 \<le> eocdOffset \<and>
      differ_only_at dv dv' (offset (getFiles built ! j) + 14) \<longrightarrow>
      (\<exists>built'. new_ZipReader decode dv' = Inr built' \<and> dataView built' = dv' \<and>
         getFiles built' = getFiles built \<and>
         reads_clear dv (getFiles built ! j) (offset (getFiles built ! j) + 14) \<and>
         (\<forall>name.
            (\<forall>fileInfo. find (\<lambda>f. filename f = name) (getFiles built) = Some fileInfo \<longrightarrow>
               reads_clear dv fileInfo (offset (getFiles built ! j) + 14)) \<longrightarrow>
            fst (extractFile built' name) = fst (extractFile built name))))"
proof (intro conjI allI impI)
  assume "0 \<le> offs \<and> offs + 46 + spec_field16 dv (offs + 28) \<le> int (length dv)"
  then obtain e where e: "parseCentralDirectoryEntry decode dv offs = Inr e"
    using parseCentralDirectoryEntry_total [of offs dv decode] by blast
  from parseCentralDirectoryEntry_fields [OF e] e
  show "\<exists>e. parseCentralDirectoryEntry decode dv offs = Inr e \<and>
         getUint32 dv (offs + 16) = Inr (crc32 e)"
    by blast
next
  fix e
  assume "parseCentralDirectoryEntry decode dv offs = Inr e"
  from parseCentralDirectoryEntry_fields [OF this]
  show "getUint32 dv (offs + 16) = Inr (crc32 e)"
    by blast
next
  fix this' :: "'s ZipReader"
  assume a: "dataView this' = dataView this \<and>
      map (\<lambda>f. f\<lparr>crc32 := 0\<rparr>) (files this') = map (\<lambda>f. f\<lparr>crc32 := 0\<rparr>) (files this)"
  then have "list_all2 (\<lambda>a b. a\<lparr>crc32 := 0\<rparr> = b\<lparr>crc32 := 0\<rparr>) (files this') (files this)"
    by (simp add: list_all2_of_map_eq)
  then have "list_all2 (\<lambda>a b. filename a = filename b \<and> offset a = offset b \<and>
               compressedSize a = compressedSize b \<and>
               compressionMethod a = compressionMethod b) (files this') (files this)"
    by (rule list_all2_mono) (rule blank_crc32_agree)
  with a show "fst (extractFile this' name) = fst (extractFile this name)"
    by (simp add: extractFile_agree)
next
  fix dv' and built :: "'s ZipReader" and eocdOffset centralDirOffset :: int and k :: nat
  assume a: "new_ZipReader decode dv = Inr built \<and>
      findEOCD dv = Inr eocdOffset \<and>
      getUint32 dv (eocdOffset + 16) = Inr centralDirOffset \<and>
      k < length (getFiles built) \<and>
      spec_cursor dv centralDirOffset k + 20 \<le> eocdOffset \<and>
      differ_only_at dv dv' (spec_cursor dv centralDirOffset k + 16)"
  then have "new_ZipReader decode dv = Inr built" and "findEOCD dv = Inr eocdOffset"
    and "getUint32 dv (eocdOffset + 16) = Inr centralDirOffset"
    and "k < length (getFiles built)"
    and "spec_cursor dv centralDirOffset k + 20 \<le> eocdOffset"
    and "differ_only_at dv dv' (spec_cursor dv centralDirOffset k + 16)"
    by blast+
  then show "\<exists>built' c'. new_ZipReader decode dv' = Inr built' \<and> dataView built' = dv' \<and>
         getUint32 dv' (spec_cursor dv centralDirOffset k + 16) = Inr c' \<and>
         getFiles built' = (getFiles built)[k := (getFiles built ! k)\<lparr>crc32 := c'\<rparr>] \<and>
         (\<forall>name.
            (\<forall>fileInfo. find (\<lambda>f. filename f = name) (getFiles built) = Some fileInfo \<longrightarrow>
               reads_clear dv fileInfo (spec_cursor dv centralDirOffset k + 16)) \<longrightarrow>
            fst (extractFile built' name) = fst (extractFile built name))"
    by (rule archives_differing_in_crc)
next
  fix dv' and built :: "'s ZipReader" and eocdOffset centralDirOffset :: int and j :: nat
  assume "new_ZipReader decode dv = Inr built \<and>
      findEOCD dv = Inr eocdOffset \<and>
      getUint32 dv (eocdOffset + 16) = Inr centralDirOffset \<and>
      j < length (getFiles built) \<and>
      offset (getFiles built ! j) + 18 \<le> centralDirOffset \<and>
      offset (getFiles built ! j) + 18 \<le> eocdOffset \<and>
      differ_only_at dv dv' (offset (getFiles built ! j) + 14)"
  then have new: "new_ZipReader decode dv = Inr built"
    and eocd: "findEOCD dv = Inr eocdOffset"
    and cdo: "getUint32 dv (eocdOffset + 16) = Inr centralDirOffset"
    and below_directory: "offset (getFiles built ! j) + 14 + 4 \<le> centralDirOffset"
    and below_trailer: "offset (getFiles built ! j) + 14 + 4 \<le> eocdOffset"
    and d: "differ_only_at dv dv' (offset (getFiles built ! j) + 14)"
    by simp_all
  from archives_differing_below_directory [OF new eocd cdo below_directory below_trailer d]
  obtain built' where "new_ZipReader decode dv' = Inr built'" and "dataView built' = dv'"
    and "getFiles built' = getFiles built"
    and "\<forall>name.
        (\<forall>fileInfo. find (\<lambda>f. filename f = name) (getFiles built) = Some fileInfo \<longrightarrow>
           reads_clear dv fileInfo (offset (getFiles built ! j) + 14)) \<longrightarrow>
        fst (extractFile built' name) = fst (extractFile built name)"
    by blast
  with local_crc_reads_clear [of dv "getFiles built ! j"]
  show "\<exists>built'. new_ZipReader decode dv' = Inr built' \<and> dataView built' = dv' \<and>
         getFiles built' = getFiles built \<and>
         reads_clear dv (getFiles built ! j) (offset (getFiles built ! j) + 14) \<and>
         (\<forall>name.
            (\<forall>fileInfo. find (\<lambda>f. filename f = name) (getFiles built) = Some fileInfo \<longrightarrow>
               reads_clear dv fileInfo (offset (getFiles built ! j) + 14)) \<longrightarrow>
            fst (extractFile built' name) = fst (extractFile built name))"
    by blast
qed

theorem crc32_not_checked_witness:
  "(\<exists>e. parseCentralDirectoryEntry ascii example_zip 99 = Inr e \<and>
      getUint32 example_zip (99 + 16) = Inr (crc32 e)) \<and>
   parseCentralDirectoryEntry ascii example_zip 99 = Inr example_file1 \<and>
   getUint32 example_zip (99 + 16) = Inr (crc32 example_file1) \<and>
   crc32 example_file1 = 0x11223344 \<and>
   fst (extractFile
      (example_reader\<lparr>files :=
         [example_file1\<lparr>crc32 := 0xdeadbeef\<rparr>, example_file2, example_file3]\<rparr>) ''a'') =
     fst (extractFile example_reader ''a'') \<and>
   (\<exists>built' c'. new_ZipReader ascii (example_zip[115 := 0xef]) = Inr built' \<and>
      getUint32 (example_zip[115 := 0xef]) (99 + 16) = Inr c' \<and>
      getFiles built' = (getFiles example_reader)[0 := (getFiles example_reader ! 0)\<lparr>crc32 := c'\<rparr>] \<and>
      fst (extractFile built' ''a'') = Inr (Some (EnqueueClose [0x68, 0x69]))) \<and>
   getUint32 example_zip (0 + 14) = Inr 0x11223344 \<and>
   getUint32 (example_zip[14 := 0xef]) (0 + 14) = Inr 0x112233ef \<and>
   (\<exists>built'. new_ZipReader ascii (example_zip[14 := 0xef]) = Inr built' \<and>
      getFiles built' = getFiles example_reader \<and>
      fst (extractFile built' ''a'') = Inr (Some (EnqueueClose [0x68, 0x69])))"
proof -
  from crc32_not_checked [of 99 example_zip ascii] example_record_fits
  have parsed: "\<exists>e. parseCentralDirectoryEntry ascii example_zip 99 = Inr e \<and>
      getUint32 example_zip (99 + 16) = Inr (crc32 e)"
    by blast
  from crc32_not_checked [of 99 example_zip ascii] example_parse_entry1
  have field: "getUint32 example_zip (99 + 16) = Inr (crc32 example_file1)"
    by blast
  have same: "dataView (example_reader\<lparr>files :=
         [example_file1\<lparr>crc32 := 0xdeadbeef\<rparr>, example_file2, example_file3]\<rparr>) =
       dataView example_reader \<and>
     map (\<lambda>f. f\<lparr>crc32 := 0\<rparr>) (files (example_reader\<lparr>files :=
         [example_file1\<lparr>crc32 := 0xdeadbeef\<rparr>, example_file2, example_file3]\<rparr>)) =
     map (\<lambda>f. f\<lparr>crc32 := 0\<rparr>) (files example_reader)"
    by (simp add: example_reader_def)
  from crc32_not_checked [of 99 example_zip ascii example_reader "''a''"] same
  have state: "fst (extractFile
      (example_reader\<lparr>files :=
         [example_file1\<lparr>crc32 := 0xdeadbeef\<rparr>, example_file2, example_file3]\<rparr>) ''a'') =
     fst (extractFile example_reader ''a'')"
    by blast
  have cur: "spec_cursor example_zip 99 0 = 99"
    by simp
  have differ: "differ_only_at example_zip (example_zip[115 := 0xef])
      (spec_cursor example_zip 99 0 + 16)"
    unfolding cur by (rule example_differ_central)
  have hyp: "new_ZipReader ascii example_zip = Inr example_reader \<and>
      findEOCD example_zip = Inr 240 \<and>
      getUint32 example_zip (240 + 16) = Inr 99 \<and>
      0 < length (getFiles example_reader) \<and>
      spec_cursor example_zip 99 0 + 20 \<le> 240 \<and>
      differ_only_at example_zip (example_zip[115 := 0xef]) (spec_cursor example_zip 99 0 + 16)"
    using example_new_ZipReader example_findEOCD example_trailer_fields differ
    by (simp add: getFiles_def example_reader_def)
  have clear: "\<forall>fileInfo. find (\<lambda>f. filename f = ''a'') (getFiles example_reader) = Some fileInfo \<longrightarrow>
      reads_clear example_zip fileInfo (spec_cursor example_zip 99 0 + 16)"
    using example_find_a example_reads_clear by (simp add: getFiles_def)
  from crc32_not_checked [of 99 example_zip ascii example_reader "''a''"] hyp
  obtain built' c' where
    b: "new_ZipReader ascii (example_zip[115 := 0xef]) = Inr built'"
    and c: "getUint32 (example_zip[115 := 0xef]) (spec_cursor example_zip 99 0 + 16) = Inr c'"
    and f: "getFiles built' = (getFiles example_reader)[0 := (getFiles example_reader ! 0)\<lparr>crc32 := c'\<rparr>]"
    and x: "\<forall>name.
        (\<forall>fileInfo. find (\<lambda>f. filename f = name) (getFiles example_reader) = Some fileInfo \<longrightarrow>
           reads_clear example_zip fileInfo (spec_cursor example_zip 99 0 + 16)) \<longrightarrow>
        fst (extractFile built' name) = fst (extractFile example_reader name)"
    by blast
  from x clear have "fst (extractFile built' ''a'') = fst (extractFile example_reader ''a'')"
    by blast
  then have out: "fst (extractFile built' ''a'') = Inr (Some (EnqueueClose [0x68, 0x69]))"
    by (simp add: example_extract_a)
  from c have c2: "getUint32 (example_zip[115 := 0xef]) (99 + 16) = Inr c'"
    by simp
  from b c2 f out
  have archive: "\<exists>built' c'. new_ZipReader ascii (example_zip[115 := 0xef]) = Inr built' \<and>
      getUint32 (example_zip[115 := 0xef]) (99 + 16) = Inr c' \<and>
      getFiles built' = (getFiles example_reader)[0 := (getFiles example_reader ! 0)\<lparr>crc32 := c'\<rparr>] \<and>
      fst (extractFile built' ''a'') = Inr (Some (EnqueueClose [0x68, 0x69]))"
    by blast
  have first: "offset (getFiles example_reader ! 0) = 0"
    by (simp add: example_getFiles0 example_file1_def)
  have hyp_local: "new_ZipReader ascii example_zip = Inr example_reader \<and>
      findEOCD example_zip = Inr 240 \<and>
      getUint32 example_zip (240 + 16) = Inr 99 \<and>
      0 < length (getFiles example_reader) \<and>
      offset (getFiles example_reader ! 0) + 18 \<le> 99 \<and>
      offset (getFiles example_reader ! 0) + 18 \<le> 240 \<and>
      differ_only_at example_zip (example_zip[14 := 0xef])
        (offset (getFiles example_reader ! 0) + 14)"
    unfolding first
    using example_new_ZipReader example_findEOCD example_trailer_fields example_differ_local
    by (simp add: getFiles_def example_reader_def)
  from crc32_not_checked [of 99 example_zip ascii example_reader "''a''"] hyp_local
  obtain built2 where
    b2: "new_ZipReader ascii (example_zip[14 := 0xef]) = Inr built2"
    and f2: "getFiles built2 = getFiles example_reader"
    and r2: "reads_clear example_zip (getFiles example_reader ! 0)
        (offset (getFiles example_reader ! 0) + 14)"
    and x2: "\<forall>name.
        (\<forall>fileInfo. find (\<lambda>f. filename f = name) (getFiles example_reader) = Some fileInfo \<longrightarrow>
           reads_clear example_zip fileInfo (offset (getFiles example_reader ! 0) + 14)) \<longrightarrow>
        fst (extractFile built2 name) = fst (extractFile example_reader name)"
    by blast
  have "\<forall>fileInfo. find (\<lambda>f. filename f = ''a'') (getFiles example_reader) = Some fileInfo \<longrightarrow>
      reads_clear example_zip fileInfo (offset (getFiles example_reader ! 0) + 14)"
    using example_find_a r2 by (simp add: getFiles_def example_getFiles0 [unfolded getFiles_def])
  with x2 have "fst (extractFile built2 ''a'') = fst (extractFile example_reader ''a'')"
    by blast
  then have "fst (extractFile built2 ''a'') = Inr (Some (EnqueueClose [0x68, 0x69]))"
    by (simp add: example_extract_a)
  with b2 f2
  have local: "\<exists>built'. new_ZipReader ascii (example_zip[14 := 0xef]) = Inr built' \<and>
      getFiles built' = getFiles example_reader \<and>
      fst (extractFile built' ''a'') = Inr (Some (EnqueueClose [0x68, 0x69]))"
    by blast
  from parsed example_parse_entry1 field example_file1_fields state archive example_local_crc
    local
  show ?thesis by blast
qed

text \<open>
  C10. When extraction of an entry of method 0 returns a stream, the stream is the single
  chunk, and the chunk has exactly \<open>compressedSize\<close> bytes, the value the entry carries
  from the central directory. \<open>uncompressedSize\<close> is never read by extraction: two
  readers over the same buffer whose entry lists are equal once every \<open>uncompressedSize\<close>
  is blanked give the same outcome for every name. Where the two sizes disagree the length
  therefore follows \<open>compressedSize\<close>.
\<close>

theorem stored_output_length:
  "(\<forall>(decode :: byte list \<Rightarrow> 's) dv offs e.
      parseCentralDirectoryEntry decode dv offs = Inr e \<longrightarrow>
      getUint32 dv (offs + 20) = Inr (compressedSize e)) \<and>
   (\<forall>fileInfo s.
      find (\<lambda>f. filename f = name) (files (this :: 's ZipReader)) = Some fileInfo \<and>
      compressionMethod fileInfo = 0 \<and> fst (extractFile this name) = Inr (Some s) \<longrightarrow>
      (\<exists>compressedData. s = EnqueueClose compressedData \<and>
         int (length compressedData) = compressedSize fileInfo)) \<and>
   (\<forall>this'. dataView this' = dataView (this :: 's ZipReader) \<and>
      map (\<lambda>f. f\<lparr>uncompressedSize := 0\<rparr>) (files this') =
        map (\<lambda>f. f\<lparr>uncompressedSize := 0\<rparr>) (files this) \<longrightarrow>
      fst (extractFile this' name) = fst (extractFile this name))"
proof (intro conjI allI impI)
  fix decode :: "byte list \<Rightarrow> 's" and dv offs and e :: "'s ZipFileInfo"
  assume "parseCentralDirectoryEntry decode dv offs = Inr e"
  from parseCentralDirectoryEntry_fields [OF this]
  show "getUint32 dv (offs + 20) = Inr (compressedSize e)"
    by blast
next
  fix fileInfo s
  assume a: "find (\<lambda>f. filename f = name) (files this) = Some fileInfo \<and>
      compressionMethod fileInfo = 0 \<and> fst (extractFile this name) = Inr (Some s)"
  then have hit: "find (\<lambda>f. filename f = name) (files this) = Some fileInfo"
    by simp
  from a obtain filenameLen extraLen compressedData where
    cd: "Uint8Array (dataView this) (offset fileInfo + 30 + filenameLen + extraLen)
               (compressedSize fileInfo) = Inr compressedData"
    and s: "s = EnqueueClose compressedData"
    by (auto simp: extractFile_found [OF hit] try_bind_eq_Inr split: if_splits)
  from cd have "int (length compressedData) = compressedSize fileInfo"
    by (rule Uint8Array_length)
  with s show "\<exists>compressedData. s = EnqueueClose compressedData \<and>
         int (length compressedData) = compressedSize fileInfo"
    by simp
next
  fix this' :: "'s ZipReader"
  assume a: "dataView this' = dataView this \<and>
      map (\<lambda>f. f\<lparr>uncompressedSize := 0\<rparr>) (files this') =
        map (\<lambda>f. f\<lparr>uncompressedSize := 0\<rparr>) (files this)"
  then have "list_all2 (\<lambda>a b. a\<lparr>uncompressedSize := 0\<rparr> = b\<lparr>uncompressedSize := 0\<rparr>)
      (files this') (files this)"
    by (simp add: list_all2_of_map_eq)
  then have "list_all2 (\<lambda>a b. filename a = filename b \<and> offset a = offset b \<and>
               compressedSize a = compressedSize b \<and>
               compressionMethod a = compressionMethod b) (files this') (files this)"
    by (rule list_all2_mono) (rule blank_uncompressedSize_agree)
  with a show "fst (extractFile this' name) = fst (extractFile this name)"
    by (simp add: extractFile_agree)
qed

theorem stored_output_length_witness:
  "getUint32 example_zip (99 + 20) = Inr (compressedSize example_file1) \<and>
   compressionMethod example_file1 = 0 \<and> compressedSize example_file1 = 2 \<and>
   uncompressedSize example_file1 = 5 \<and>
   (\<exists>compressedData.
      fst (extractFile example_reader ''a'') = Inr (Some (EnqueueClose compressedData)) \<and>
      int (length compressedData) = 2) \<and>
   fst (extractFile
      (example_reader\<lparr>files :=
         [example_file1\<lparr>uncompressedSize := 2\<rparr>, example_file2, example_file3]\<rparr>) ''a'') =
     fst (extractFile example_reader ''a'')"
proof -
  have ok: "fst (extractFile example_reader ''a'') = Inr (Some (EnqueueClose [0x68, 0x69]))"
    by (simp add: example_extract_a)
  from stored_output_length [of "''a''" example_reader] example_find_a example_file1_fields ok
  have "\<exists>compressedData. EnqueueClose [0x68, 0x69] = EnqueueClose compressedData \<and>
         int (length compressedData) = compressedSize example_file1"
    by blast
  with ok example_file1_fields
  have len: "\<exists>compressedData.
      fst (extractFile example_reader ''a'') = Inr (Some (EnqueueClose compressedData)) \<and>
      int (length compressedData) = 2"
    by simp
  have same: "dataView (example_reader\<lparr>files :=
         [example_file1\<lparr>uncompressedSize := 2\<rparr>, example_file2, example_file3]\<rparr>) =
       dataView example_reader \<and>
     map (\<lambda>f. f\<lparr>uncompressedSize := 0\<rparr>) (files (example_reader\<lparr>files :=
         [example_file1\<lparr>uncompressedSize := 2\<rparr>, example_file2, example_file3]\<rparr>)) =
     map (\<lambda>f. f\<lparr>uncompressedSize := 0\<rparr>) (files example_reader)"
    by (simp add: example_reader_def)
  from stored_output_length [of "''a''" example_reader] same
  have "fst (extractFile
      (example_reader\<lparr>files :=
         [example_file1\<lparr>uncompressedSize := 2\<rparr>, example_file2, example_file3]\<rparr>) ''a'') =
     fst (extractFile example_reader ''a'')"
    by blast
  moreover from stored_output_length [of "''a''" example_reader] example_parse_entry1
  have "getUint32 example_zip (99 + 20) = Inr (compressedSize example_file1)"
    by blast
  ultimately show ?thesis
    using len example_file1_fields by blast
qed

end
